theory Spec2Isabelle
  imports Complex_Main "HOL-Library.Sublist"
begin

section \<open>Strings as the service uses them\<close>

text \<open>
  \<open>String.prototype.includes\<close>: the argument occurs as a contiguous run of characters.
\<close>

fun includes_str :: "string \<Rightarrow> string \<Rightarrow> bool" where
  "includes_str [] sub = (sub = [])"
| "includes_str (c # cs) sub = (prefix sub (c # cs) \<or> includes_str cs sub)"

section \<open>The credential pool of \<open>PIIDetectionService\<close>\<close>

text \<open>
  \<open>KeyUsageStats\<close> of \<open>types\<close>. \<open>lastUsed\<close> holds the instant (milliseconds of the
  clock) whose ISO string the source stores; \<open>None\<close> is \<open>null\<close>.
\<close>

record KeyUsageStats =
  requests :: nat
  errors :: nat
  lastUsed :: "nat option"
  rateLimitHits :: nat

text \<open>
  The two options of \<open>PIIDetectionConfig\<close> that the dispatcher reads. The constructor
  argument may leave either out (\<open>None\<close>).
\<close>

record PIIDetectionConfig =
  maxRetries :: nat
  retryDelay :: nat

record ConfigInput =
  maxRetries_given :: "nat option"
  retryDelay_given :: "nat option"

text \<open>
  The fields of the class. \<open>client\<close> stands for \<open>genAI\<close>/\<open>model\<close>: it records the key
  the client object was last built with. \<open>rateLimitResetTimes\<close> is the
  \<open>Map<number, number>\<close> from key index to the instant its cooldown ends.
\<close>

record PIIDetectionService =
  apiKeys :: "string list"
  currentKeyIndex :: nat
  keyUsageStats :: "KeyUsageStats list"
  config :: PIIDetectionConfig
  rateLimitResetTimes :: "nat \<rightharpoonup> nat"
  client :: string

datatype construction_error = NoApiKey

definition initializeClient :: "PIIDetectionService \<Rightarrow> PIIDetectionService" where
  "initializeClient s = s\<lparr>client := apiKeys s ! currentKeyIndex s\<rparr>"

text \<open>
  The constructor: an empty key array throws; otherwise one zeroed statistics entry per
  key, index 0 current, no cooldown recorded. The spread \<open>...config\<close> comes last in the
  source, so an option the caller gives wins and an absent one takes the default.
\<close>

definition initial_service :: "string list \<Rightarrow> ConfigInput \<Rightarrow> PIIDetectionService" where
  "initial_service keys cfg =
     initializeClient
       \<lparr>apiKeys = keys,
        currentKeyIndex = 0,
        keyUsageStats =
          map (\<lambda>_. \<lparr>requests = 0, errors = 0, lastUsed = None, rateLimitHits = 0\<rparr>) keys,
        config =
          \<lparr>maxRetries = (case maxRetries_given cfg of None \<Rightarrow> 3 | Some n \<Rightarrow> n),
           retryDelay = (case retryDelay_given cfg of None \<Rightarrow> 1000 | Some d \<Rightarrow> d)\<rparr>,
        rateLimitResetTimes = Map.empty,
        client = []\<rparr>"

definition new_service ::
  "string list \<Rightarrow> ConfigInput \<Rightarrow> construction_error + PIIDetectionService" where
  "new_service keys cfg =
     (if keys = [] then Inl NoApiKey else Inr (initial_service keys cfg))"

text \<open>
  The class invariant the constructor establishes and every method keeps: there is a
  key, the current index points at one, and every key has its statistics entry. All
  array reads of the methods below are in range under it.
\<close>

definition pool_ok :: "PIIDetectionService \<Rightarrow> bool" where
  "pool_ok s = (apiKeys s \<noteq> [] \<and> currentKeyIndex s < length (apiKeys s)
           \<and> length (keyUsageStats s) = length (apiKeys s))"

text \<open>
  \<open>rotateAPIKey\<close>, with the reading of \<open>Date.now()\<close> as argument: the index advances by
  one modulo the number of keys, the key left behind gets one more \<open>rateLimitHits\<close> and
  a reset time one minute ahead, and the client is rebuilt.
\<close>

definition rotateAPIKey :: "nat \<Rightarrow> PIIDetectionService \<Rightarrow> PIIDetectionService" where
  "rotateAPIKey now s =
     (let previousIndex = currentKeyIndex s;
          s1 = s\<lparr>currentKeyIndex := (currentKeyIndex s + 1) mod length (apiKeys s)\<rparr>;
          old = keyUsageStats s1 ! previousIndex;
          s2 = s1\<lparr>keyUsageStats :=
                 (keyUsageStats s1)[previousIndex := old\<lparr>rateLimitHits := rateLimitHits old + 1\<rparr>]\<rparr>;
          s3 = s2\<lparr>rateLimitResetTimes := (rateLimitResetTimes s2)(previousIndex \<mapsto> now + 60000)\<rparr>
      in initializeClient s3)"

text \<open>
  The test \<open>!resetTime || now > resetTime\<close>: no entry (or the falsy entry 0) or an entry
  strictly in the past.
\<close>

definition available :: "nat \<Rightarrow> nat option \<Rightarrow> bool" where
  "available now resetTime =
     (case resetTime of None \<Rightarrow> True | Some r \<Rightarrow> r = 0 \<or> now > r)"

text \<open>
  \<open>findAvailableKey\<close>: the \<open>for\<close> loop over \<open>i\<close>, from the current index and wrapping
  around. The first available key becomes current (the client is rebuilt only when the
  index changes) and the result is \<open>true\<close>; with no key available the service is left as
  it is and the result is \<open>false\<close>.
\<close>

function findAvailableKey_from ::
  "nat \<Rightarrow> PIIDetectionService \<Rightarrow> nat \<Rightarrow> bool \<times> PIIDetectionService" where
  "findAvailableKey_from now s i =
     (if i < length (apiKeys s) then
        (let keyIndex = (currentKeyIndex s + i) mod length (apiKeys s);
             resetTime = rateLimitResetTimes s keyIndex
         in if available now resetTime then
              (True, if keyIndex \<noteq> currentKeyIndex s
                     then initializeClient (s\<lparr>currentKeyIndex := keyIndex\<rparr>) else s)
            else findAvailableKey_from now s (i + 1))
      else (False, s))"
  by pat_completeness auto

termination
  by (relation "measure (\<lambda>(now, s, i). length (apiKeys s) - i)") auto

declare findAvailableKey_from.simps [simp del]

definition findAvailableKey :: "nat \<Rightarrow> PIIDetectionService \<Rightarrow> bool \<times> PIIDetectionService" where
  "findAvailableKey now s = findAvailableKey_from now s 0"

section \<open>The dispatcher \<open>callGeminiWithRetry\<close>\<close>

text \<open>
  What the upstream call throws: an error object with an optional \<open>message\<close> and an
  optional numeric \<open>status\<close>.
\<close>

record api_error =
  message :: "string option"
  status :: "nat option"

definition isRateLimitError :: "api_error \<Rightarrow> bool" where
  "isRateLimitError e =
     ((case message e of None \<Rightarrow> False | Some m \<Rightarrow> includes_str m ''429'')
      \<or> (case message e of None \<Rightarrow> False | Some m \<Rightarrow> includes_str m ''rate limit'')
      \<or> (case message e of None \<Rightarrow> False | Some m \<Rightarrow> includes_str m ''RESOURCE_EXHAUSTED'')
      \<or> status e = Some 429)"

text \<open>
  What \<open>callGeminiWithRetry\<close> throws: the fresh \<open>Error\<close> of the rate-limit branch, or
  the caught upstream error itself.
\<close>

datatype dispatch_error = AllKeysRateLimited | UpstreamError api_error

text \<open>
  One upstream call as the dispatcher sees it: it throws or returns the response text,
  after some time. The environment is a function from the attempt number to that.
\<close>

record upstream_reply =
  outcome :: "api_error + string"
  latency :: nat

text \<open>
  The service together with the clock that \<open>Date.now()\<close> reads (in milliseconds) and the
  log of the delays handed to \<open>sleep\<close>. An upstream call moves the clock by its latency,
  a sleep by the time its timer runs: \<open>setTimeout\<close> takes a delay below 1 or above
  \<open>2^31 - 1\<close> milliseconds as 1.
\<close>

record world =
  service :: PIIDetectionService
  clock :: nat
  sleeps :: "nat list"

definition timer_delay :: "nat \<Rightarrow> nat" where
  "timer_delay ms = (if ms < 1 \<or> 2147483647 < ms then 1 else ms)"

definition sleep :: "nat \<Rightarrow> world \<Rightarrow> world" where
  "sleep ms w = w\<lparr>clock := clock w + timer_delay ms, sleeps := sleeps w @ [ms]\<rparr>"

text \<open>
  An update of the statistics entry of the current key, as in
  \<open>this.keyUsageStats[this.currentKeyIndex].requests++\<close>.
\<close>

definition on_current :: "(KeyUsageStats \<Rightarrow> KeyUsageStats) \<Rightarrow> PIIDetectionService \<Rightarrow> PIIDetectionService" where
  "on_current f s =
     s\<lparr>keyUsageStats := (keyUsageStats s)[currentKeyIndex s := f (keyUsageStats s ! currentKeyIndex s)]\<rparr>"

text \<open>
  How one pass through the body of \<open>callGeminiWithRetry\<close> ends: it returns or throws
  (\<open>Done\<close>), or it calls itself with \<open>attempt + 1\<close> (\<open>Again\<close>).
\<close>

datatype step = Done "dispatch_error + string" world | Again world

text \<open>
  The code after the rate-limit block of the \<open>catch\<close>: exponential backoff, rotation
  from the second attempt on, retry; past \<open>maxRetries\<close> the caught error is rethrown.
\<close>

definition backoff_retry :: "nat \<Rightarrow> api_error \<Rightarrow> world \<Rightarrow> step" where
  "backoff_retry attempt err w =
     (if attempt \<le> maxRetries (config (service w)) then
        (let backoffDelay = retryDelay (config (service w)) * 2 ^ (attempt - 1);
             w1 = sleep backoffDelay w;
             w2 = (if attempt > 1
                   then w1\<lparr>service := rotateAPIKey (clock w1) (service w1)\<rparr> else w1)
         in Again w2)
      else Done (Inl (UpstreamError err)) w)"

text \<open>The \<open>catch\<close> block.\<close>

definition on_failure :: "nat \<Rightarrow> api_error \<Rightarrow> world \<Rightarrow> step" where
  "on_failure attempt err w =
     (let w1 = w\<lparr>service := on_current (\<lambda>k. k\<lparr>errors := errors k + 1\<rparr>) (service w)\<rparr>
      in if isRateLimitError err then
           (let (hasAvailableKey, s') = findAvailableKey (clock w1) (service w1);
                w2 = w1\<lparr>service := s'\<rparr>
            in if hasAvailableKey \<and> attempt \<le> maxRetries (config (service w2)) then
                 Again (sleep (retryDelay (config (service w2))) w2)
               else if \<not> hasAvailableKey then Done (Inl AllKeysRateLimited) w2
               else backoff_retry attempt err w2)
         else backoff_retry attempt err w1)"

text \<open>One pass through the body: the \<open>try\<close> block, then the \<open>catch\<close> block if it threw.\<close>

definition attempt_once :: "upstream_reply \<Rightarrow> nat \<Rightarrow> world \<Rightarrow> step" where
  "attempt_once r attempt w =
     (let w1 = w\<lparr>service :=
                 on_current (\<lambda>k. k\<lparr>requests := requests k + 1, lastUsed := Some (clock w)\<rparr>)
                   (service w)\<rparr>;
          w2 = w1\<lparr>clock := clock w1 + latency r\<rparr>
      in case outcome r of
           Inr text \<Rightarrow> Done (Inr text) w2
         | Inl err \<Rightarrow> on_failure attempt err w2)"

text \<open>
  No method changes \<open>config\<close>, and a pass that ends in \<open>Again\<close> was made with
  \<open>attempt \<le> maxRetries\<close>: the recursion of \<open>callGeminiWithRetry\<close> stops after at most
  \<open>maxRetries + 1\<close> attempts.
\<close>

lemma config_initializeClient [simp]: "config (initializeClient s) = config s"
  by (simp add: initializeClient_def)

lemma config_rotateAPIKey [simp]: "config (rotateAPIKey now s) = config s"
  by (simp add: rotateAPIKey_def Let_def)

lemma config_on_current [simp]: "config (on_current f s) = config s"
  by (simp add: on_current_def)

lemma config_findAvailableKey_from [simp]:
  "config (snd (findAvailableKey_from now s i)) = config s"
proof (induction now s i rule: findAvailableKey_from.induct)
  case (1 now s i)
  then show ?case
    by (subst findAvailableKey_from.simps) (auto simp: Let_def)
qed

lemma config_findAvailableKey [simp]: "config (snd (findAvailableKey now s)) = config s"
  by (simp add: findAvailableKey_def)

lemma backoff_retry_Again:
  "backoff_retry a e w = Again w' \<Longrightarrow>
     a \<le> maxRetries (config (service w)) \<and> config (service w') = config (service w)"
  by (auto simp: backoff_retry_def Let_def sleep_def split: if_splits)

lemma on_failure_Again:
  "on_failure a e w = Again w' \<Longrightarrow>
     a \<le> maxRetries (config (service w)) \<and> config (service w') = config (service w)"
  by (auto simp: on_failure_def Let_def sleep_def split_beta split: if_splits
           dest!: backoff_retry_Again)

lemma attempt_once_Again:
  "attempt_once r a w = Again w' \<Longrightarrow>
     a \<le> maxRetries (config (service w)) \<and> config (service w') = config (service w)"
  by (auto simp: attempt_once_def Let_def split: sum.splits dest!: on_failure_Again)

text \<open>
  \<open>callGeminiWithRetry(content, attempt)\<close>: the result it returns or the error it throws,
  and the world it leaves. \<open>upstream n\<close> is what the call of attempt \<open>n\<close> meets.
\<close>

function callGeminiWithRetry ::
  "(nat \<Rightarrow> upstream_reply) \<Rightarrow> nat \<Rightarrow> world \<Rightarrow> (dispatch_error + string) \<times> world" where
  "callGeminiWithRetry upstream attempt w =
     (case attempt_once (upstream attempt) attempt w of
        Done r w' \<Rightarrow> (r, w')
      | Again w' \<Rightarrow> callGeminiWithRetry upstream (attempt + 1) w')"
  by pat_completeness auto

termination
proof (relation "measure (\<lambda>(upstream, attempt, w). maxRetries (config (service w)) + 1 - attempt)")
  show "wf (measure (\<lambda>(upstream, attempt, w). maxRetries (config (service w)) + 1 - attempt))"
    by simp
next
  fix upstream :: "nat \<Rightarrow> upstream_reply" and attempt w w'
  assume "attempt_once (upstream attempt) attempt w = Again w'"
  from attempt_once_Again [OF this]
  show "((upstream, attempt + 1, w'), (upstream, attempt, w))
        \<in> measure (\<lambda>(upstream, attempt, w). maxRetries (config (service w)) + 1 - attempt)"
    by auto
qed

declare callGeminiWithRetry.simps [simp del]

text \<open>
  Consecutive calls of \<open>rotateAPIKey\<close>, one per clock reading of the list, and the
  indices that were current when each call was made.
\<close>

fun rotate_all :: "nat list \<Rightarrow> PIIDetectionService \<Rightarrow> PIIDetectionService" where
  "rotate_all [] s = s"
| "rotate_all (t # ts) s = rotate_all ts (rotateAPIKey t s)"

fun visited :: "nat list \<Rightarrow> PIIDetectionService \<Rightarrow> nat list" where
  "visited [] s = []"
| "visited (t # ts) s = currentKeyIndex s # visited ts (rotateAPIKey t s)"

section \<open>The response normalizer \<open>parseDetectionResult\<close>\<close>

subsection \<open>Values and \<open>JSON.parse\<close>\<close>

text \<open>
  The values \<open>JSON.parse\<close> can return, and \<open>undefined\<close>, which reading an absent property
  gives. A number is held as the rational its literal denotes: the rounding to a double
  is left out, so a literal beyond the range or the precision of a double keeps its
  exact value here. An object is held as its members in the order of the text.
\<close>

datatype jsval =
    Undefined
  | JNull
  | JBool bool
  | JNumber rat
  | JString string
  | JArray "jsval list"
  | JObject "(string \<times> jsval) list"

text \<open>
  \<open>JSON.parse\<close> is modelled after the JSON grammar in two passes: the text is cut into
  tokens, and the tokens are read by a machine with a stack.
\<close>

datatype token =
  TLBrace | TRBrace | TLBracket | TRBracket | TColon | TComma | TValue jsval

text \<open>Decimal and hexadecimal digits, and the number a run of decimal digits denotes.\<close>

definition is_digit :: "char \<Rightarrow> bool" where
  "is_digit c = (48 \<le> (of_char c :: nat) \<and> (of_char c :: nat) \<le> 57)"

definition digits_value :: "string \<Rightarrow> nat" where
  "digits_value ds = foldl (\<lambda>n c. 10 * n + ((of_char c :: nat) - 48)) (0::nat) ds"

definition hex_digit :: "char \<Rightarrow> nat option" where
  "hex_digit c =
     map_of (zip ''0123456789abcdef'' [0..<16] @ zip ''ABCDEF'' [10..<16]) c"

fun hex4 :: "string \<Rightarrow> nat option" where
  "hex4 (a # b # c # d # _) =
     (case (hex_digit a, hex_digit b, hex_digit c, hex_digit d) of
        (Some x, Some y, Some z, Some w) \<Rightarrow> Some (((x * 16 + y) * 16 + z) * 16 + w)
      | _ \<Rightarrow> None)"
| "hex4 _ = None"

text \<open>The single-character escapes of a JSON string.\<close>

definition unescape :: "char \<Rightarrow> char option" where
  "unescape e =
     map_of [(CHR 0x22, CHR 0x22), (CHR 0x5C, CHR 0x5C), (CHR ''/'', CHR ''/''),
             (CHR ''b'', CHR 0x08), (CHR ''f'', CHR 0x0C), (CHR ''n'', CHR 0x0A),
             (CHR ''r'', CHR 0x0D), (CHR ''t'', CHR 0x09)] e"

text \<open>
  The rest of a string literal, after its opening quote: the characters up to the
  closing quote, and the text after it. A control character or a malformed escape is a
  syntax error (\<open>None\<close>). \<open>char\<close> holds the code units below 256; the code unit named
  by a \<open>\u\<close> escape is stored through \<open>char_of\<close>, which is exact for the escapes up to
  \<open>\u00ff\<close> and reduces the others modulo 256.
\<close>

fun lex_string :: "string \<Rightarrow> string \<Rightarrow> (string \<times> string) option" where
  "lex_string [] acc = None"
| "lex_string (c # cs) acc =
     (if c = CHR 0x22 then Some (rev acc, cs)
      else if c = CHR 0x5C then
        (case cs of
           [] \<Rightarrow> None
         | e # cs' \<Rightarrow>
             if e = CHR ''u'' then
               (case hex4 cs' of
                  None \<Rightarrow> None
                | Some code \<Rightarrow> lex_string (drop 4 cs') (char_of code # acc))
             else
               (case unescape e of
                  None \<Rightarrow> None
                | Some ch \<Rightarrow> lex_string cs' (ch # acc)))
      else if (of_char c :: nat) < 32 then None
      else lex_string cs (c # acc))"

text \<open>
  A number literal at the head of the text: optional minus, integer part without
  leading zero, optional fraction, optional exponent. Each part is returned with the
  text that follows it.
\<close>

definition lex_fraction :: "string \<Rightarrow> string option \<times> string" where
  "lex_fraction s =
     (case s of
        [] \<Rightarrow> (None, s)
      | c # r \<Rightarrow>
          if c = CHR ''.'' then (Some (takeWhile is_digit r), dropWhile is_digit r)
          else (None, s))"

definition lex_exponent :: "string \<Rightarrow> (bool \<times> string) option \<times> string" where
  "lex_exponent s =
     (case s of
        [] \<Rightarrow> (None, s)
      | c # r \<Rightarrow>
          if c = CHR ''e'' \<or> c = CHR ''E'' then
            (let negative = (r \<noteq> [] \<and> hd r = CHR ''-'');
                 r' = (if r \<noteq> [] \<and> (hd r = CHR ''-'' \<or> hd r = CHR ''+'') then tl r else r)
             in (Some (negative, takeWhile is_digit r'), dropWhile is_digit r'))
          else (None, s))"

definition number_value ::
  "bool \<Rightarrow> string \<Rightarrow> string option \<Rightarrow> (bool \<times> string) option \<Rightarrow> rat" where
  "number_value neg ds fraction exponent =
     (let fs = (case fraction of None \<Rightarrow> [] | Some f \<Rightarrow> f);
          mantissa = (of_nat (digits_value (ds @ fs)) :: rat) / 10 ^ length fs;
          scaled =
            (case exponent of
               None \<Rightarrow> mantissa
             | Some (negative, es) \<Rightarrow>
                 if negative then mantissa / 10 ^ digits_value es
                 else mantissa * 10 ^ digits_value es)
      in if neg then - scaled else scaled)"

definition lex_number :: "string \<Rightarrow> (rat \<times> string) option" where
  "lex_number s =
     (let neg = (s \<noteq> [] \<and> hd s = CHR ''-'');
          s1 = (if neg then tl s else s);
          ds = takeWhile is_digit s1;
          (fraction, s2) = lex_fraction (dropWhile is_digit s1);
          (exponent, s3) = lex_exponent s2
      in if ds = [] \<or> (length ds > 1 \<and> hd ds = CHR ''0'') then None
         else if fraction = Some [] then None
         else if (case exponent of None \<Rightarrow> False | Some (_, es) \<Rightarrow> es = []) then None
         else Some (number_value neg ds fraction exponent, s3))"

text \<open>
  A literal that is read leaves a text shorter than the one it was read from, so the
  tokenizer below terminates.
\<close>

lemma lex_string_rest:
  "lex_string cs acc = Some (s, rest) \<Longrightarrow> length rest < length cs"
proof (induction cs acc rule: lex_string.induct)
  case (1 acc)
  then show ?case by simp
next
  case (2 c cs acc)
  show ?case
  proof (cases "c = CHR 0x22")
    case True
    with "2.prems" show ?thesis by simp
  next
    case notquote: False
    show ?thesis
    proof (cases "c = CHR 0x5C")
      case backslash: True
      from "2.prems" notquote backslash obtain e cs' where cs: "cs = e # cs'"
        by (cases cs) auto
      show ?thesis
      proof (cases "e = CHR ''u''")
        case True
        with "2.prems" notquote backslash cs obtain code where
          code: "hex4 cs' = Some code"
          and call: "lex_string (drop 4 cs') (char_of code # acc) = Some (s, rest)"
          by (cases "hex4 cs'") auto
        from "2.IH"(1) [OF notquote backslash cs True code call]
        show ?thesis using cs by simp
      next
        case False
        with "2.prems" notquote backslash cs obtain ch where
          ch: "unescape e = Some ch"
          and call: "lex_string cs' (ch # acc) = Some (s, rest)"
          by (cases "unescape e") auto
        from "2.IH"(2) [OF notquote backslash cs False ch call]
        show ?thesis using cs by simp
      qed
    next
      case False
      with notquote "2.prems" have small: "\<not> (of_char c :: nat) < 32"
        and call: "lex_string cs (c # acc) = Some (s, rest)"
        by (auto split: if_splits)
      from "2.IH"(3) [OF notquote False small call] show ?thesis by simp
    qed
  qed
qed

lemma lex_fraction_rest: "length (snd (lex_fraction s)) \<le> length s"
  by (auto simp: lex_fraction_def split: list.splits
           intro: order_trans [OF length_dropWhile_le])

lemma lex_exponent_rest: "length (snd (lex_exponent s)) \<le> length s"
proof (cases s)
  case Nil
  then show ?thesis by (simp add: lex_exponent_def)
next
  case (Cons c r)
  have "length (dropWhile is_digit (tl r)) \<le> length r"
    by (rule order_trans [OF length_dropWhile_le]) simp
  moreover have "length (dropWhile is_digit r) \<le> length r"
    by (rule length_dropWhile_le)
  ultimately show ?thesis
    using Cons by (simp add: lex_exponent_def Let_def)
qed

lemma lex_number_rest:
  assumes "lex_number s = Some (q, rest)"
  shows "length rest < length s"
proof -
  define s1 where "s1 = (if s \<noteq> [] \<and> hd s = CHR ''-'' then tl s else s)"
  define s2 where "s2 = snd (lex_fraction (dropWhile is_digit s1))"
  from assms have ds: "takeWhile is_digit s1 \<noteq> []"
    and rest: "rest = snd (lex_exponent s2)"
    by (auto simp: lex_number_def Let_def s1_def s2_def split_beta split: if_splits)
  have "length (takeWhile is_digit s1) + length (dropWhile is_digit s1) = length s1"
    by (metis length_append takeWhile_dropWhile_id)
  with ds have "length (dropWhile is_digit s1) < length s1"
    by (cases "takeWhile is_digit s1") auto
  moreover have "length s1 \<le> length s" by (simp add: s1_def)
  moreover have "length s2 \<le> length (dropWhile is_digit s1)"
    unfolding s2_def by (rule lex_fraction_rest)
  moreover have "length rest \<le> length s2"
    unfolding rest by (rule lex_exponent_rest)
  ultimately show ?thesis by simp
qed

text \<open>JSON whitespace: tab, line feed, carriage return, space.\<close>

definition is_json_space :: "char \<Rightarrow> bool" where
  "is_json_space c = (c = CHR 0x09 \<or> c = CHR 0x0A \<or> c = CHR 0x0D \<or> c = CHR '' '')"

text \<open>The tokens of a text; \<open>None\<close> when some part of it is no token.\<close>

function lex :: "string \<Rightarrow> token list option" where
  "lex [] = Some []"
| "lex (c # cs) =
     (if is_json_space c then lex cs
      else if c = CHR ''{'' then map_option ((#) TLBrace) (lex cs)
      else if c = CHR ''}'' then map_option ((#) TRBrace) (lex cs)
      else if c = CHR ''['' then map_option ((#) TLBracket) (lex cs)
      else if c = CHR '']'' then map_option ((#) TRBracket) (lex cs)
      else if c = CHR '':'' then map_option ((#) TColon) (lex cs)
      else if c = CHR '','' then map_option ((#) TComma) (lex cs)
      else if c = CHR 0x22 then
        (case lex_string cs [] of
           None \<Rightarrow> None
         | Some (s, rest) \<Rightarrow> map_option ((#) (TValue (JString s))) (lex rest))
      else if c = CHR ''-'' \<or> is_digit c then
        (case lex_number (c # cs) of
           None \<Rightarrow> None
         | Some (q, rest) \<Rightarrow> map_option ((#) (TValue (JNumber q))) (lex rest))
      else if prefix ''true'' (c # cs) then
        map_option ((#) (TValue (JBool True))) (lex (drop 3 cs))
      else if prefix ''false'' (c # cs) then
        map_option ((#) (TValue (JBool False))) (lex (drop 4 cs))
      else if prefix ''null'' (c # cs) then
        map_option ((#) (TValue JNull)) (lex (drop 3 cs))
      else None)"
  by pat_completeness auto

termination
proof (relation "measure length")
  fix c cs x s rest
  assume "lex_string cs [] = Some x" "(s, rest) = x"
  then show "(rest, c # cs) \<in> measure length"
    using lex_string_rest [of cs "[]" s rest] by simp
next
  fix c cs x q rest
  assume "lex_number (c # cs) = Some x" "(q, rest) = x"
  then show "(rest, c # cs) \<in> measure length"
    using lex_number_rest [of "c # cs" q rest] by simp
qed auto

declare lex.simps [simp del]

text \<open>
  The grammar, as a machine over the tokens with a stack of the arrays and objects that
  are open.
\<close>

datatype frame = ArrF "jsval list" | ObjF "(string \<times> jsval) list" | KeyF string

datatype pstate =
  WantValue | WantValueOrEnd | WantKeyOrEnd | WantKey | WantColon string | HaveValue jsval

definition begin_value :: "frame list \<Rightarrow> token \<Rightarrow> (pstate \<times> frame list) option" where
  "begin_value st t =
     (case t of
        TValue v \<Rightarrow> Some (HaveValue v, st)
      | TLBracket \<Rightarrow> Some (WantValueOrEnd, ArrF [] # st)
      | TLBrace \<Rightarrow> Some (WantKeyOrEnd, ObjF [] # st)
      | _ \<Rightarrow> None)"

fun parse_step :: "pstate \<Rightarrow> frame list \<Rightarrow> token \<Rightarrow> (pstate \<times> frame list) option" where
  "parse_step WantValue st t = begin_value st t"
| "parse_step WantValueOrEnd st t =
     (case (t, st) of
        (TRBracket, ArrF [] # st') \<Rightarrow> Some (HaveValue (JArray []), st')
      | _ \<Rightarrow> begin_value st t)"
| "parse_step WantKeyOrEnd st t =
     (case (t, st) of
        (TRBrace, ObjF [] # st') \<Rightarrow> Some (HaveValue (JObject []), st')
      | (TValue (JString k), _) \<Rightarrow> Some (WantColon k, st)
      | _ \<Rightarrow> None)"
| "parse_step WantKey st t =
     (case t of TValue (JString k) \<Rightarrow> Some (WantColon k, st) | _ \<Rightarrow> None)"
| "parse_step (WantColon k) st t =
     (case t of TColon \<Rightarrow> Some (WantValue, KeyF k # st) | _ \<Rightarrow> None)"
| "parse_step (HaveValue v) st t =
     (case st of
        ArrF es # st' \<Rightarrow>
          (case t of
             TComma \<Rightarrow> Some (WantValue, ArrF (es @ [v]) # st')
           | TRBracket \<Rightarrow> Some (HaveValue (JArray (es @ [v])), st')
           | _ \<Rightarrow> None)
      | KeyF k # ObjF ms # st' \<Rightarrow>
          (case t of
             TComma \<Rightarrow> Some (WantKey, ObjF (ms @ [(k, v)]) # st')
           | TRBrace \<Rightarrow> Some (HaveValue (JObject (ms @ [(k, v)])), st')
           | _ \<Rightarrow> None)
      | _ \<Rightarrow> None)"

fun parse_tokens :: "pstate \<Rightarrow> frame list \<Rightarrow> token list \<Rightarrow> jsval option" where
  "parse_tokens p st [] = (case (p, st) of (HaveValue v, []) \<Rightarrow> Some v | _ \<Rightarrow> None)"
| "parse_tokens p st (t # ts) =
     (case parse_step p st t of
        None \<Rightarrow> None
      | Some (p', st') \<Rightarrow> parse_tokens p' st' ts)"

text \<open>\<open>JSON.parse\<close>: \<open>None\<close> is the \<open>SyntaxError\<close> it throws.\<close>

definition JSON_parse :: "string \<Rightarrow> jsval option" where
  "JSON_parse txt = (case lex txt of None \<Rightarrow> None | Some ts \<Rightarrow> parse_tokens WantValue [] ts)"

subsection \<open>Cleaning the response text\<close>

text \<open>
  \<open>String.prototype.trim\<close>, on the code units \<open>char\<close> holds: tab, line feed, vertical
  tab, form feed, carriage return, space and no-break space are removed at both ends.
\<close>

definition is_js_space :: "char \<Rightarrow> bool" where
  "is_js_space c = ((of_char c :: nat) \<in> {9, 10, 11, 12, 13, 32, 160})"

definition trim :: "string \<Rightarrow> string" where
  "trim s = rev (dropWhile is_js_space (rev (dropWhile is_js_space s)))"

text \<open>
  \<open>s.replace(/pat\n?/g, '')\<close> for a literal, non-empty \<open>pat\<close>: scanning from the left,
  every occurrence of \<open>pat\<close>, with the line feed that follows it if there is one, is
  removed.
\<close>

function remove_fences :: "string \<Rightarrow> string \<Rightarrow> string" where
  "remove_fences pat s =
     (if pat \<noteq> [] \<and> prefix pat s then
        (let r = drop (length pat) s
         in remove_fences pat (if r \<noteq> [] \<and> hd r = CHR 0x0A then tl r else r))
      else (case s of [] \<Rightarrow> [] | c # cs \<Rightarrow> c # remove_fences pat cs))"
  by pat_completeness auto

termination
proof (relation "measure (\<lambda>(pat, s). length s)")
  fix pat s :: string and r
  assume "pat \<noteq> [] \<and> prefix pat s" and r: "r = drop (length pat) s"
  then have "length pat \<le> length s" "0 < length pat"
    by (auto dest: prefix_length_le)
  then have "length r < length s" using r by (cases pat; cases s) auto
  moreover have "length (tl r) \<le> length r" by simp
  ultimately show "((pat, if r \<noteq> [] \<and> hd r = CHR 0x0A then tl r else r), pat, s)
                   \<in> measure (\<lambda>(pat, s). length s)"
    by auto
qed auto

declare remove_fences.simps [simp del]

text \<open>The first four statements of the \<open>try\<close> block.\<close>

definition cleanedText :: "string \<Rightarrow> string" where
  "cleanedText responseText =
     trim (remove_fences [CHR 0x60, CHR 0x60, CHR 0x60]
       (remove_fences ([CHR 0x60, CHR 0x60, CHR 0x60] @ ''json'') (trim responseText)))"

text \<open>
  \<open>String.prototype.toLowerCase\<close>, on the code units \<open>char\<close> holds: the capital letters
  of ASCII and of Latin-1 move up by 32.
\<close>

definition lower_char :: "char \<Rightarrow> char" where
  "lower_char c =
     (let n = (of_char c :: nat)
      in if (65 \<le> n \<and> n \<le> 90) \<or> (192 \<le> n \<and> n \<le> 222 \<and> n \<noteq> 215)
         then char_of (n + 32) else c)"

definition toLowerCase :: "string \<Rightarrow> string" where
  "toLowerCase s = map lower_char s"

subsection \<open>\<open>parseDetectionResult\<close>\<close>

text \<open>
  \<open>DetectionResult\<close> as the function builds it at run time: \<open>parsed\<close> is untyped, so a
  field holds whatever value the response carried. \<open>Undefined\<close> in \<open>imageContainsText\<close>
  and \<open>None\<close> in \<open>rawResponse\<close> stand for the optional field being absent.
\<close>

record DetectionResult =
  hasPII :: jsval
  confidence :: jsval
  detectedItems :: jsval
  reasoning :: jsval
  riskLevel :: jsval
  imageContainsText :: jsval
  rawResponse :: "string option"

text \<open>Truthiness, and \<open>a || b\<close>.\<close>

fun truthy :: "jsval \<Rightarrow> bool" where
  "truthy Undefined = False"
| "truthy JNull = False"
| "truthy (JBool b) = b"
| "truthy (JNumber n) = (n \<noteq> 0)"
| "truthy (JString s) = (s \<noteq> [])"
| "truthy (JArray xs) = True"
| "truthy (JObject ms) = True"

definition js_or :: "jsval \<Rightarrow> jsval \<Rightarrow> jsval" where
  "js_or a b = (if truthy a then a else b)"

text \<open>
  Reading one of the six properties \<open>parseDetectionResult\<close> reads, from a value that is
  neither \<open>null\<close> nor \<open>undefined\<close>: an object gives the member of that name (the last
  one, if the text repeated the name), or \<open>undefined\<close>; a boolean, number, string or
  array has no property of these names.
\<close>

fun property :: "jsval \<Rightarrow> string \<Rightarrow> jsval" where
  "property (JObject ms) name = (case map_of (rev ms) name of None \<Rightarrow> Undefined | Some v \<Rightarrow> v)"
| "property _ name = Undefined"

datatype js_error = SyntaxError | TypeError

text \<open>
  The \<open>try\<close> block, for a given \<open>JSON.parse\<close>. It throws when \<open>JSON.parse\<close> throws, and
  when \<open>JSON.parse\<close> returns \<open>null\<close>, whose first property read throws.
\<close>

definition structured :: "jsval \<Rightarrow> DetectionResult" where
  "structured parsed =
     \<lparr>hasPII = js_or (property parsed ''hasPII'') (JBool False),
      confidence = js_or (property parsed ''confidence'') (JNumber 0),
      detectedItems = js_or (property parsed ''detectedItems'') (JArray []),
      reasoning = js_or (property parsed ''reasoning'') (JString []),
      riskLevel = js_or (property parsed ''riskLevel'') (JString ''low''),
      imageContainsText = property parsed ''imageContainsText'',
      rawResponse = None\<rparr>"

definition try_parse :: "(string \<Rightarrow> jsval option) \<Rightarrow> string \<Rightarrow> js_error + DetectionResult" where
  "try_parse parse responseText =
     (case parse (cleanedText responseText) of
        None \<Rightarrow> Inl SyntaxError
      | Some parsed \<Rightarrow>
          if parsed = JNull \<or> parsed = Undefined then Inl TypeError
          else Inr (structured parsed))"

text \<open>The \<open>catch\<close> block.\<close>

definition hasPIIIndicators :: "string \<Rightarrow> bool" where
  "hasPIIIndicators responseText =
     (includes_str (toLowerCase responseText) ''detected''
      \<or> includes_str (toLowerCase responseText) ''found''
      \<or> includes_str (toLowerCase responseText) ''phone''
      \<or> includes_str (toLowerCase responseText) ''email'')"

definition fallback :: "string \<Rightarrow> DetectionResult" where
  "fallback responseText =
     \<lparr>hasPII = JBool (hasPIIIndicators responseText),
      confidence = JNumber 50,
      detectedItems = JArray [],
      reasoning = JString ''Failed to parse response, flagging as potential PII'',
      riskLevel = JString ''medium'',
      imageContainsText = Undefined,
      rawResponse = Some responseText\<rparr>"

definition parseDetectionResult_with ::
  "(string \<Rightarrow> jsval option) \<Rightarrow> string \<Rightarrow> DetectionResult" where
  "parseDetectionResult_with parse responseText =
     (case try_parse parse responseText of
        Inr result \<Rightarrow> result
      | Inl error \<Rightarrow> fallback responseText)"

definition parseDetectionResult :: "string \<Rightarrow> DetectionResult" where
  "parseDetectionResult = parseDetectionResult_with JSON_parse"

section \<open>Usage statistics: \<open>getUsageStats\<close>\<close>

text \<open>
  \<open>UsageStatsResponse\<close>: the four counters of \<open>KeyUsageStats\<close>, spread into the entry,
  and the three fields the entry adds.
\<close>

record UsageStatsResponse = KeyUsageStats +
  keyIndex :: nat
  keyPreview :: string
  isCurrent :: bool

text \<open>The object literal of the callback; \<open>key.substring(0, 8)\<close> is \<open>take 8 key\<close>.\<close>

definition usage_entry ::
  "PIIDetectionService \<Rightarrow> nat \<Rightarrow> string \<Rightarrow> KeyUsageStats \<Rightarrow> UsageStatsResponse" where
  "usage_entry s index key k =
     \<lparr>requests = requests k, errors = errors k, lastUsed = lastUsed k,
      rateLimitHits = rateLimitHits k,
      keyIndex = index,
      keyPreview = take 8 key @ ''...'',
      isCurrent = (index = currentKeyIndex s)\<rparr>"

text \<open>
  \<open>getUsageStats\<close> on values: one entry per key, in order. It has no assignment to a
  field of the service, so the model returns the entries only.
\<close>

definition getUsageStats :: "PIIDetectionService \<Rightarrow> UsageStatsResponse list" where
  "getUsageStats s =
     map (\<lambda>(index, key). usage_entry s index key (keyUsageStats s ! index))
       (enumerate 0 (apiKeys s))"

text \<open>
  The same method over a store of objects, where the statistics objects of the pool and
  the entries handed out live at addresses, so that sharing between them can be stated.
  An address is an index into the store; the object literal of the callback allocates
  at the end of the store. \<open>refs\<close> are the addresses held by the array
  \<open>this.keyUsageStats\<close>; reading through one of them an object that is not a statistics
  object (which the class never stores there) is \<open>None\<close>.
\<close>

datatype cell = StatsCell KeyUsageStats | ResponseCell UsageStatsResponse

definition represents :: "cell list \<Rightarrow> nat list \<Rightarrow> PIIDetectionService \<Rightarrow> bool" where
  "represents h refs s =
     list_all2 (\<lambda>r k. r < length h \<and> h ! r = StatsCell k) refs (keyUsageStats s)"

fun allocate_entries ::
  "PIIDetectionService \<Rightarrow> nat list \<Rightarrow> cell list \<Rightarrow> nat \<Rightarrow> string list
     \<Rightarrow> (nat list \<times> cell list) option" where
  "allocate_entries s refs h index [] = Some ([], h)"
| "allocate_entries s refs h index (key # keys) =
     (if index < length refs \<and> refs ! index < length h then
        (case h ! (refs ! index) of
           StatsCell k \<Rightarrow>
             (case allocate_entries s refs (h @ [ResponseCell (usage_entry s index key k)])
                     (index + 1) keys of
                None \<Rightarrow> None
              | Some (as, h') \<Rightarrow> Some (length h # as, h'))
         | ResponseCell _ \<Rightarrow> None)
      else None)"

definition getUsageStats_store ::
  "PIIDetectionService \<Rightarrow> nat list \<Rightarrow> cell list \<Rightarrow> (nat list \<times> cell list) option" where
  "getUsageStats_store s refs h = allocate_entries s refs h 0 (apiKeys s)"

text \<open>
  \<open>loadAPIKeys\<close> of the server, from which every pool is built. Its argument is the
  values of \<open>GEMINI_API_KEY_1\<close>, \<open>GEMINI_API_KEY_2\<close>, \<dots> as far as they are set; the loop
  stops at an empty value, skips a value that contains \<open>your-api-key\<close> or \<open>your-key\<close> or
  whose trimmed length is below 20, and keeps the others in order.
\<close>

fun loadAPIKeys :: "string list \<Rightarrow> string list" where
  "loadAPIKeys [] = []"
| "loadAPIKeys (key # rest) =
     (if key = [] then []
      else if includes_str key ''your-api-key'' \<or> includes_str key ''your-key''
              \<or> length (trim key) < 20
      then loadAPIKeys rest
      else key # loadAPIKeys rest)"

section \<open>Properties of the pool and the dispatcher\<close>

lemma callGeminiWithRetry_Done:
  "attempt_once (upstream attempt) attempt w = Done r w' \<Longrightarrow>
     callGeminiWithRetry upstream attempt w = (r, w')"
  by (subst callGeminiWithRetry.simps) simp

lemma callGeminiWithRetry_Again:
  "attempt_once (upstream attempt) attempt w = Again w' \<Longrightarrow>
     callGeminiWithRetry upstream attempt w = callGeminiWithRetry upstream (attempt + 1) w'"
  by (subst callGeminiWithRetry.simps) simp

lemma findAvailableKey_from_fst:
  "fst (findAvailableKey_from now s i) \<longleftrightarrow>
     (\<exists>j. i \<le> j \<and> j < length (apiKeys s)
        \<and> available now (rateLimitResetTimes s ((currentKeyIndex s + j) mod length (apiKeys s))))"
proof (induction now s i rule: findAvailableKey_from.induct)
  case (1 now s i)
  show ?case
  proof (cases "i < length (apiKeys s)")
    case False
    then show ?thesis
      by (subst findAvailableKey_from.simps) auto
  next
    case inrange: True
    show ?thesis
    proof (cases "available now (rateLimitResetTimes s ((currentKeyIndex s + i) mod length (apiKeys s)))")
      case True
      with inrange show ?thesis
        by (subst findAvailableKey_from.simps) (auto simp: Let_def)
    next
      case False
      with inrange 1 have
        "fst (findAvailableKey_from now s (i + 1)) \<longleftrightarrow>
           (\<exists>j. i + 1 \<le> j \<and> j < length (apiKeys s)
              \<and> available now (rateLimitResetTimes s ((currentKeyIndex s + j) mod length (apiKeys s))))"
        by simp
      moreover have "findAvailableKey_from now s i = findAvailableKey_from now s (i + 1)"
        using inrange False by (subst findAvailableKey_from.simps) (simp add: Let_def)
      moreover have "\<And>j. i \<le> j \<Longrightarrow>
          available now (rateLimitResetTimes s ((currentKeyIndex s + j) mod length (apiKeys s)))
          \<Longrightarrow> i + 1 \<le> j"
        using False by (metis Suc_eq_plus1 Suc_leI le_neq_implies_less)
      ultimately show ?thesis
        by (metis Suc_eq_plus1 Suc_leD)
    qed
  qed
qed

lemma on_current_frame [simp]:
  "apiKeys (on_current f s) = apiKeys s"
  "currentKeyIndex (on_current f s) = currentKeyIndex s"
  "rateLimitResetTimes (on_current f s) = rateLimitResetTimes s"
  "client (on_current f s) = client s"
  by (simp_all add: on_current_def)

lemma findAvailableKey_fst:
  assumes "pool_ok s"
  shows "fst (findAvailableKey now s) \<longleftrightarrow>
           (\<exists>k < length (apiKeys s). available now (rateLimitResetTimes s k))"
proof -
  let ?n = "length (apiKeys s)" and ?c = "currentKeyIndex s"
  from assms have n: "0 < ?n" and c: "?c < ?n" by (auto simp: pool_ok_def)
  have "(\<exists>j. j < ?n \<and> available now (rateLimitResetTimes s ((?c + j) mod ?n)))
        \<longleftrightarrow> (\<exists>k < ?n. available now (rateLimitResetTimes s k))"
  proof
    assume "\<exists>j. j < ?n \<and> available now (rateLimitResetTimes s ((?c + j) mod ?n))"
    then obtain j where "available now (rateLimitResetTimes s ((?c + j) mod ?n))" by blast
    moreover have "(?c + j) mod ?n < ?n" using n by simp
    ultimately show "\<exists>k < ?n. available now (rateLimitResetTimes s k)" by blast
  next
    assume "\<exists>k < ?n. available now (rateLimitResetTimes s k)"
    then obtain k where k: "k < ?n" "available now (rateLimitResetTimes s k)" by blast
    let ?j = "(k + ?n - ?c) mod ?n"
    have "(?c + ?j) mod ?n = (?c + (k + ?n - ?c)) mod ?n"
      by (simp add: mod_add_right_eq)
    also have "\<dots> = (k + ?n) mod ?n" using c by simp
    also have "\<dots> = k" using k by simp
    finally have "(?c + ?j) mod ?n = k" .
    moreover have "?j < ?n" using n by simp
    ultimately show "\<exists>j. j < ?n \<and> available now (rateLimitResetTimes s ((?c + j) mod ?n))"
      using k by metis
  qed
  then show ?thesis
    by (simp add: findAvailableKey_def findAvailableKey_from_fst)
qed

text \<open>
  C10. A rate-limit failure on an attempt past \<open>maxRetries\<close>, while some key is
  available, ends the call with the caught upstream error itself, not with the
  all-keys-rate-limited error.
\<close>

theorem C10_rate_limit_past_retries_rethrows:
  assumes "pool_ok (service w)"
    and "outcome (upstream attempt) = Inl err"
    and "isRateLimitError err"
    and "\<exists>k < length (apiKeys (service w)).
           available (clock w + latency (upstream attempt)) (rateLimitResetTimes (service w) k)"
    and "maxRetries (config (service w)) < attempt"
  shows "fst (callGeminiWithRetry upstream attempt w) = Inl (UpstreamError err)"
proof -
  let ?s = "on_current (\<lambda>k. k\<lparr>errors := errors k + 1\<rparr>)
              (on_current (\<lambda>k. k\<lparr>requests := requests k + 1, lastUsed := Some (clock w)\<rparr>)
                 (service w))"
  let ?now = "clock w + latency (upstream attempt)"
  have ok: "pool_ok ?s"
    using assms(1) by (simp add: pool_ok_def on_current_def)
  have "fst (findAvailableKey ?now ?s)"
    using assms(4) findAvailableKey_fst [OF ok, of ?now] by simp
  then obtain s' where found: "findAvailableKey ?now ?s = (True, s')"
    by (cases "findAvailableKey ?now ?s") auto
  have "config (snd (True, s')) = config ?s"
    unfolding found [symmetric] by (rule config_findAvailableKey)
  then have "\<exists>w'. attempt_once (upstream attempt) attempt w = Done (Inl (UpstreamError err)) w'"
    using assms(2,3,5) found
    by (simp add: attempt_once_def on_failure_def backoff_retry_def Let_def)
  then show ?thesis
    by (auto dest: callGeminiWithRetry_Done)
qed

lemma pool_ok_initial_service: "keys \<noteq> [] \<Longrightarrow> pool_ok (initial_service keys cfg)"
  by (simp add: pool_ok_def initial_service_def initializeClient_def)

theorem C10_witness:
  "fst (callGeminiWithRetry
          (\<lambda>_. \<lparr>outcome = Inl \<lparr>message = Some ''429 Too Many Requests'', status = Some 429\<rparr>,
                 latency = 120\<rparr>)
          1
          \<lparr>service = initial_service [''key-A'', ''key-B'']
                       \<lparr>maxRetries_given = Some 0, retryDelay_given = None\<rparr>,
           clock = 5000, sleeps = []\<rparr>)
   = Inl (UpstreamError \<lparr>message = Some ''429 Too Many Requests'', status = Some 429\<rparr>)"
proof (rule C10_rate_limit_past_retries_rethrows)
  let ?s = "initial_service [''key-A'', ''key-B'']
              \<lparr>maxRetries_given = Some 0, retryDelay_given = None\<rparr>"
  let ?w = "\<lparr>service = ?s, clock = 5000, sleeps = []\<rparr>"
  show "pool_ok (service ?w)"
    by (simp add: pool_ok_initial_service)
  show "isRateLimitError \<lparr>message = Some ''429 Too Many Requests'', status = Some 429\<rparr>"
    by (simp add: isRateLimitError_def)
  show "maxRetries (config (service ?w)) < 1"
    by (simp add: initial_service_def initializeClient_def)
  show "\<exists>k < length (apiKeys (service ?w)).
          available (clock ?w + latency \<lparr>outcome = Inl \<lparr>message = Some ''429 Too Many Requests'', status = Some 429\<rparr>,
                 latency = 120\<rparr>) (rateLimitResetTimes (service ?w) k)"
    by (intro exI [of _ 0]) (simp add: initial_service_def initializeClient_def available_def)
qed simp





lemma rotateAPIKey_fields [simp]:
  "apiKeys (rotateAPIKey now s) = apiKeys s"
  "currentKeyIndex (rotateAPIKey now s) = (currentKeyIndex s + 1) mod length (apiKeys s)"
  "length (keyUsageStats (rotateAPIKey now s)) = length (keyUsageStats s)"
  "rateLimitResetTimes (rotateAPIKey now s) =
     (rateLimitResetTimes s)(currentKeyIndex s \<mapsto> now + 60000)"
  by (simp_all add: rotateAPIKey_def Let_def initializeClient_def)

lemma pool_ok_rotateAPIKey: "pool_ok s \<Longrightarrow> pool_ok (rotateAPIKey now s)"
  by (simp add: pool_ok_def)

lemma rotateAPIKey_hits:
  "pool_ok s \<Longrightarrow>
     rateLimitHits (keyUsageStats (rotateAPIKey now s) ! i) =
       (if i = currentKeyIndex s then rateLimitHits (keyUsageStats s ! i) + 1
        else rateLimitHits (keyUsageStats s ! i))"
  by (simp add: rotateAPIKey_def Let_def initializeClient_def pool_ok_def nth_list_update)

lemma findAvailableKey_from_shape:
  "snd (findAvailableKey_from now s i) = s
   \<or> (\<exists>k. snd (findAvailableKey_from now s i) = initializeClient (s\<lparr>currentKeyIndex := k\<rparr>))"
proof (induction now s i rule: findAvailableKey_from.induct)
  case (1 now s i)
  then show ?case
    by (subst (1 2) findAvailableKey_from.simps) (auto simp: Let_def)
qed

lemma findAvailableKey_from_fields [simp]:
  "apiKeys (snd (findAvailableKey_from now s i)) = apiKeys s"
  "keyUsageStats (snd (findAvailableKey_from now s i)) = keyUsageStats s"
  "rateLimitResetTimes (snd (findAvailableKey_from now s i)) = rateLimitResetTimes s"
  using findAvailableKey_from_shape [of now s i]
  by (auto simp: initializeClient_def)

lemma findAvailableKey_fields [simp]:
  "apiKeys (snd (findAvailableKey now s)) = apiKeys s"
  "keyUsageStats (snd (findAvailableKey now s)) = keyUsageStats s"
  "rateLimitResetTimes (snd (findAvailableKey now s)) = rateLimitResetTimes s"
  by (simp_all add: findAvailableKey_def)

lemma findAvailableKey_from_selected:
  "fst (findAvailableKey_from now s i) \<Longrightarrow>
     available now (rateLimitResetTimes s (currentKeyIndex (snd (findAvailableKey_from now s i))))"
proof (induction now s i rule: findAvailableKey_from.induct)
  case (1 now s i)
  from "1.prems" have inrange: "i < length (apiKeys s)"
    by (subst (asm) findAvailableKey_from.simps) (simp split: if_splits)
  show ?case
  proof (cases "available now (rateLimitResetTimes s ((currentKeyIndex s + i) mod length (apiKeys s)))")
    case True
    with inrange show ?thesis
      by (subst findAvailableKey_from.simps) (auto simp: Let_def initializeClient_def)
  next
    case False
    with inrange have step: "findAvailableKey_from now s i = findAvailableKey_from now s (i + 1)"
      by (subst findAvailableKey_from.simps) (simp add: Let_def)
    with "1.prems" have "fst (findAvailableKey_from now s (i + 1))" by simp
    with "1.IH" inrange False show ?thesis
      unfolding step by simp
  qed
qed

lemma findAvailableKey_from_unchanged:
  "\<not> fst (findAvailableKey_from now s i) \<Longrightarrow> snd (findAvailableKey_from now s i) = s"
proof (induction now s i rule: findAvailableKey_from.induct)
  case (1 now s i)
  then show ?case
    by (subst findAvailableKey_from.simps, subst (asm) (3) findAvailableKey_from.simps)
       (auto simp: Let_def split: if_splits)
qed

lemma findAvailableKey_selected:
  "fst (findAvailableKey now s) \<Longrightarrow>
     available now (rateLimitResetTimes s (currentKeyIndex (snd (findAvailableKey now s))))"
  unfolding findAvailableKey_def by (rule findAvailableKey_from_selected)

lemma findAvailableKey_unchanged:
  "\<not> fst (findAvailableKey now s) \<Longrightarrow> snd (findAvailableKey now s) = s"
  unfolding findAvailableKey_def by (rule findAvailableKey_from_unchanged)

lemma pool_ok_rotate_all: "pool_ok s \<Longrightarrow> pool_ok (rotate_all ts s)"
  by (induction ts arbitrary: s) (simp_all add: pool_ok_rotateAPIKey)

lemma apiKeys_rotate_all [simp]: "apiKeys (rotate_all ts s) = apiKeys s"
  by (induction ts arbitrary: s) simp_all

lemma visited_round_robin:
  "pool_ok s \<Longrightarrow>
     visited ts s = map (\<lambda>j. (currentKeyIndex s + j) mod length (apiKeys s)) [0..<length ts]"
proof (induction ts arbitrary: s)
  case Nil
  then show ?case by simp
next
  case (Cons t ts)
  let ?n = "length (apiKeys s)" and ?c = "currentKeyIndex s"
  from Cons.prems have c: "?c < ?n" by (simp add: pool_ok_def)
  have "visited ts (rotateAPIKey t s) =
          map (\<lambda>j. ((?c + 1) mod ?n + j) mod ?n) [0..<length ts]"
    using Cons.IH [OF pool_ok_rotateAPIKey [OF Cons.prems]] by simp
  also have "\<dots> = map (\<lambda>j. (?c + Suc j) mod ?n) [0..<length ts]"
    by (simp add: mod_add_left_eq)
  finally have rest: "visited ts (rotateAPIKey t s) =
      map (\<lambda>j. (?c + Suc j) mod ?n) [0..<length ts]" .
  have "map (\<lambda>j. (?c + j) mod ?n) [0..<length (t # ts)] =
          (?c + 0) mod ?n # map (\<lambda>j. (?c + Suc j) mod ?n) [0..<length ts]"
    by (simp add: upt_conv_Cons map_Suc_upt [symmetric] del: upt_Suc)
  with rest c show ?case by simp
qed

lemma shifted_index_inj:
  assumes "c < n" "j < n" "j' < n" "(c + j) mod n = (c + j') mod n"
  shows "j = (j'::nat)"
proof -
  have "\<And>i. i < n \<Longrightarrow> (c + i) mod n = (if c + i < n then c + i else c + i - n)"
    using assms(1) by (simp add: mod_if)
  with assms show ?thesis
    by (auto split: if_splits)
qed

lemma visited_distinct:
  assumes "pool_ok s" "length ts \<le> length (apiKeys s)"
  shows "distinct (visited ts s)"
proof -
  from assms(1) have c: "currentKeyIndex s < length (apiKeys s)" by (simp add: pool_ok_def)
  have "inj_on (\<lambda>j. (currentKeyIndex s + j) mod length (apiKeys s)) {0..<length ts}"
  proof (rule inj_onI)
    fix j j'
    assume "j \<in> {0..<length ts}" "j' \<in> {0..<length ts}"
      and "(currentKeyIndex s + j) mod length (apiKeys s)
           = (currentKeyIndex s + j') mod length (apiKeys s)"
    with assms(2) show "j = j'"
      using shifted_index_inj [OF c, of j j'] by simp
  qed
  then show ?thesis
    by (simp add: visited_round_robin [OF assms(1)] distinct_map)
qed

lemma visited_all:
  assumes "pool_ok s" "length ts = length (apiKeys s)"
  shows "set (visited ts s) = {0..<length (apiKeys s)}"
proof (rule card_subset_eq)
  show "finite {0..<length (apiKeys s)}" by simp
  from assms(1) have "0 < length (apiKeys s)" by (simp add: pool_ok_def)
  then show "set (visited ts s) \<subseteq> {0..<length (apiKeys s)}"
    by (auto simp: visited_round_robin [OF assms(1)])
  have "card (set (visited ts s)) = length (visited ts s)"
    using visited_distinct [OF assms(1)] assms(2) by (simp add: distinct_card)
  then show "card (set (visited ts s)) = card {0..<length (apiKeys s)}"
    using assms by (simp add: visited_round_robin)
qed

lemma reset_rotate_all_other:
  "i \<notin> set (visited ts s) \<Longrightarrow>
     rateLimitResetTimes (rotate_all ts s) i = rateLimitResetTimes s i"
  by (induction ts arbitrary: s) auto

lemma reset_rotate_all_visited:
  assumes "distinct (visited ts s)" "k < length ts"
  shows "rateLimitResetTimes (rotate_all ts s) (visited ts s ! k) = Some (ts ! k + 60000)"
  using assms
proof (induction ts arbitrary: s k)
  case Nil
  then show ?case by simp
next
  case (Cons t ts)
  show ?case
  proof (cases k)
    case 0
    with Cons.prems show ?thesis
      by (simp add: reset_rotate_all_other)
  next
    case (Suc k')
    with Cons show ?thesis by simp
  qed
qed

text \<open>
  C8. For a pool of \<open>N\<close> keys, \<open>N\<close> consecutive calls of \<open>rotateAPIKey\<close> (made at the
  clock readings \<open>ts\<close>) leave, one after the other, the indices \<open>c, c+1, \<dots>, c+N-1\<close>
  modulo \<open>N\<close>, where \<open>c\<close> was current at the start: no index repeats and every index
  is visited. Afterwards, as long as the clock has not passed the reset time of the key
  marked by the \<open>k\<close>-th call, \<open>findAvailableKey\<close> never selects that key; once the clock
  has passed it, the key passes the availability test again and \<open>findAvailableKey\<close>
  succeeds.
\<close>

theorem C8_round_robin_cooldown:
  assumes "pool_ok s" and "length ts = length (apiKeys s)"
  shows "visited ts s =
           map (\<lambda>j. (currentKeyIndex s + j) mod length (apiKeys s)) [0..<length (apiKeys s)]
         \<and> distinct (visited ts s)
         \<and> set (visited ts s) = {0..<length (apiKeys s)}
         \<and> (\<forall>k<length ts. \<forall>now.
               (now \<le> ts ! k + 60000 \<longrightarrow>
                  \<not> (fst (findAvailableKey now (rotate_all ts s))
                     \<and> currentKeyIndex (snd (findAvailableKey now (rotate_all ts s)))
                         = visited ts s ! k))
             \<and> (ts ! k + 60000 < now \<longrightarrow>
                  available now (rateLimitResetTimes (rotate_all ts s) (visited ts s ! k))
                  \<and> fst (findAvailableKey now (rotate_all ts s))))"
proof (intro conjI allI impI)
  show "visited ts s =
          map (\<lambda>j. (currentKeyIndex s + j) mod length (apiKeys s)) [0..<length (apiKeys s)]"
    using visited_round_robin [OF assms(1), of ts] assms(2) by simp
  show d: "distinct (visited ts s)"
    using visited_distinct [OF assms(1)] assms(2) by simp
  show all: "set (visited ts s) = {0..<length (apiKeys s)}"
    by (rule visited_all [OF assms])
  have ok: "pool_ok (rotate_all ts s)"
    by (rule pool_ok_rotate_all [OF assms(1)])
  fix k now
  assume k: "k < length ts"
  have reset: "rateLimitResetTimes (rotate_all ts s) (visited ts s ! k) = Some (ts ! k + 60000)"
    by (rule reset_rotate_all_visited [OF d k])
  {
    assume early: "now \<le> ts ! k + 60000"
    show "\<not> (fst (findAvailableKey now (rotate_all ts s))
             \<and> currentKeyIndex (snd (findAvailableKey now (rotate_all ts s))) = visited ts s ! k)"
    proof
      assume sel: "fst (findAvailableKey now (rotate_all ts s))
             \<and> currentKeyIndex (snd (findAvailableKey now (rotate_all ts s))) = visited ts s ! k"
      then have "available now (rateLimitResetTimes (rotate_all ts s) (visited ts s ! k))"
        using findAvailableKey_selected [of now "rotate_all ts s"] by auto
      with reset early show False
        by (simp add: available_def)
    qed
  }
  {
    assume late: "ts ! k + 60000 < now"
    with reset show av: "available now (rateLimitResetTimes (rotate_all ts s) (visited ts s ! k))"
      by (simp add: available_def)
    have "visited ts s ! k \<in> set (visited ts s)"
      using k by (simp add: visited_round_robin [OF assms(1)])
    with all have "visited ts s ! k < length (apiKeys (rotate_all ts s))" by simp
    with av show "fst (findAvailableKey now (rotate_all ts s))"
      unfolding findAvailableKey_fst [OF ok] by blast
  }
qed

theorem C8_witness:
  "visited [100, 200, 300]
     (initial_service [''key-A'', ''key-B'', ''key-C'']
        \<lparr>maxRetries_given = None, retryDelay_given = None\<rparr>) = [0, 1, 2]
   \<and> \<not> (fst (findAvailableKey 60150 (rotate_all [100, 200, 300]
          (initial_service [''key-A'', ''key-B'', ''key-C'']
             \<lparr>maxRetries_given = None, retryDelay_given = None\<rparr>)))
        \<and> currentKeyIndex (snd (findAvailableKey 60150 (rotate_all [100, 200, 300]
          (initial_service [''key-A'', ''key-B'', ''key-C'']
             \<lparr>maxRetries_given = None, retryDelay_given = None\<rparr>)))) = 1)
   \<and> fst (findAvailableKey 60150 (rotate_all [100, 200, 300]
          (initial_service [''key-A'', ''key-B'', ''key-C'']
             \<lparr>maxRetries_given = None, retryDelay_given = None\<rparr>)))"
proof -
  let ?s = "initial_service [''key-A'', ''key-B'', ''key-C'']
              \<lparr>maxRetries_given = None, retryDelay_given = None\<rparr>"
  let ?ts = "[100, 200, 300] :: nat list"
  have ok: "pool_ok ?s" by (simp add: pool_ok_initial_service)
  have len: "length ?ts = length (apiKeys ?s)"
    by (simp add: initial_service_def initializeClient_def)
  have cur: "currentKeyIndex ?s = 0" "length (apiKeys ?s) = 3"
    by (simp_all add: initial_service_def initializeClient_def)
  note all = C8_round_robin_cooldown [OF ok len]
  from all have v: "visited ?ts ?s = [0, 1, 2]"
    by (simp add: cur upt_conv_Cons)
  let ?S = "rotate_all ?ts ?s"
  from all have q: "\<forall>k<length ?ts. \<forall>now.
               (now \<le> ?ts ! k + 60000 \<longrightarrow>
                  \<not> (fst (findAvailableKey now ?S)
                     \<and> currentKeyIndex (snd (findAvailableKey now ?S)) = visited ?ts ?s ! k))
             \<and> (?ts ! k + 60000 < now \<longrightarrow>
                  available now (rateLimitResetTimes ?S (visited ?ts ?s ! k))
                  \<and> fst (findAvailableKey now ?S))"
    by blast
  have k1: "(1::nat) < length ?ts" and k0: "(0::nat) < length ?ts" by simp_all
  have t1: "(60150::nat) \<le> ?ts ! 1 + 60000" and t0: "?ts ! 0 + 60000 < (60150::nat)"
    by simp_all
  from q k1 t1 have a: "\<not> (fst (findAvailableKey 60150 ?S)
      \<and> currentKeyIndex (snd (findAvailableKey 60150 ?S)) = visited ?ts ?s ! 1)"
    by blast
  from q k0 t0 have b: "fst (findAvailableKey 60150 ?S)"
    by blast
  have "visited ?ts ?s ! 1 = 1" by (simp only: v) simp
  with a b v show ?thesis
    by (simp only: simp_thms)
qed

lemma on_current_stats:
  "pool_ok s \<Longrightarrow>
     keyUsageStats (on_current f s) ! i =
       (if i = currentKeyIndex s then f (keyUsageStats s ! i) else keyUsageStats s ! i)"
  by (simp add: on_current_def pool_ok_def nth_list_update)

lemma pool_ok_on_current: "pool_ok s \<Longrightarrow> pool_ok (on_current f s)"
  by (simp add: pool_ok_def on_current_def)

text \<open>
  The retry after a failure that is not a rate-limit failure, on an attempt after the
  first and within \<open>maxRetries\<close>: the dispatcher sleeps the backoff delay and calls
  \<open>rotateAPIKey\<close>, so the next key becomes current and the key left behind gets one more
  \<open>rateLimitHits\<close> and a reset time one minute after the rotation.
\<close>

lemma backoff_rotation_marks_previous:
  assumes "pool_ok (service w)"
    and "outcome r = Inl err" and "\<not> isRateLimitError err"
    and "1 < attempt" and "attempt \<le> maxRetries (config (service w))"
  shows "\<exists>w'. attempt_once r attempt w = Again w'
           \<and> currentKeyIndex (service w')
               = (currentKeyIndex (service w) + 1) mod length (apiKeys (service w))
           \<and> rateLimitHits (keyUsageStats (service w') ! currentKeyIndex (service w))
               = rateLimitHits (keyUsageStats (service w) ! currentKeyIndex (service w)) + 1
           \<and> rateLimitResetTimes (service w') (currentKeyIndex (service w))
               = Some (clock w' + 60000)"
proof -
  let ?s1 = "on_current (\<lambda>k. k\<lparr>requests := requests k + 1, lastUsed := Some (clock w)\<rparr>)
               (service w)"
  let ?s2 = "on_current (\<lambda>k. k\<lparr>errors := errors k + 1\<rparr>) ?s1"
  let ?d = "retryDelay (config (service w)) * 2 ^ (attempt - 1)"
  let ?t = "clock w + latency r + timer_delay ?d"
  have step: "attempt_once r attempt w =
      Again \<lparr>service = rotateAPIKey ?t ?s2, clock = ?t, sleeps = sleeps w @ [?d]\<rparr>"
    using assms(2-5)
    by (simp add: attempt_once_def on_failure_def backoff_retry_def Let_def sleep_def)
  show ?thesis
    unfolding step
    by (simp add: rotateAPIKey_hits on_current_stats pool_ok_on_current assms(1))
qed

lemmas dispatch_eval =
  callGeminiWithRetry.simps attempt_once_def on_failure_def backoff_retry_def sleep_def
  timer_delay_def
  on_current_def rotateAPIKey_def findAvailableKey_def findAvailableKey_from.simps
  available_def isRateLimitError_def initial_service_def initializeClient_def Let_def

text \<open>
  C3 (the code at a retry after two failures that are not rate-limit failures). Two
  keys, nothing in cooldown; the first two attempts fail with a 503, which is not a
  rate-limit error, and the third succeeds. Before the third attempt the dispatcher
  rotates by \<open>rotateAPIKey\<close>: key 1 becomes current, and key 0, which never met a rate
  limit, is left with \<open>rateLimitHits = 1\<close> and a reset time one minute ahead (63160).
\<close>

theorem C3_retry_rotation_marks_key:
  "\<not> isRateLimitError \<lparr>message = Some ''503 Service Unavailable'', status = Some 503\<rparr>
   \<and> fst (callGeminiWithRetry
          (\<lambda>n. if n < 3
                then \<lparr>outcome = Inl \<lparr>message = Some ''503 Service Unavailable'', status = Some 503\<rparr>,
                      latency = 80\<rparr>
                else \<lparr>outcome = Inr ''no contact details'', latency = 300\<rparr>)
          1
          \<lparr>service = initial_service [''key-A'', ''key-B'']
                       \<lparr>maxRetries_given = None, retryDelay_given = None\<rparr>,
           clock = 0, sleeps = []\<rparr>) = Inr ''no contact details''
   \<and> currentKeyIndex (service (snd (callGeminiWithRetry
          (\<lambda>n. if n < 3
                then \<lparr>outcome = Inl \<lparr>message = Some ''503 Service Unavailable'', status = Some 503\<rparr>,
                      latency = 80\<rparr>
                else \<lparr>outcome = Inr ''no contact details'', latency = 300\<rparr>)
          1
          \<lparr>service = initial_service [''key-A'', ''key-B'']
                       \<lparr>maxRetries_given = None, retryDelay_given = None\<rparr>,
           clock = 0, sleeps = []\<rparr>))) = 1
   \<and> keyUsageStats (service (snd (callGeminiWithRetry
          (\<lambda>n. if n < 3
                then \<lparr>outcome = Inl \<lparr>message = Some ''503 Service Unavailable'', status = Some 503\<rparr>,
                      latency = 80\<rparr>
                else \<lparr>outcome = Inr ''no contact details'', latency = 300\<rparr>)
          1
          \<lparr>service = initial_service [''key-A'', ''key-B'']
                       \<lparr>maxRetries_given = None, retryDelay_given = None\<rparr>,
           clock = 0, sleeps = []\<rparr>)))
       = [\<lparr>requests = 2, errors = 2, lastUsed = Some 1080, rateLimitHits = 1\<rparr>,
          \<lparr>requests = 1, errors = 0, lastUsed = Some 3160, rateLimitHits = 0\<rparr>]
   \<and> rateLimitResetTimes (service (snd (callGeminiWithRetry
          (\<lambda>n. if n < 3
                then \<lparr>outcome = Inl \<lparr>message = Some ''503 Service Unavailable'', status = Some 503\<rparr>,
                      latency = 80\<rparr>
                else \<lparr>outcome = Inr ''no contact details'', latency = 300\<rparr>)
          1
          \<lparr>service = initial_service [''key-A'', ''key-B'']
                       \<lparr>maxRetries_given = None, retryDelay_given = None\<rparr>,
           clock = 0, sleeps = []\<rparr>))) 0 = Some 63160
   \<and> sleeps (snd (callGeminiWithRetry
          (\<lambda>n. if n < 3
                then \<lparr>outcome = Inl \<lparr>message = Some ''503 Service Unavailable'', status = Some 503\<rparr>,
                      latency = 80\<rparr>
                else \<lparr>outcome = Inr ''no contact details'', latency = 300\<rparr>)
          1
          \<lparr>service = initial_service [''key-A'', ''key-B'']
                       \<lparr>maxRetries_given = None, retryDelay_given = None\<rparr>,
           clock = 0, sleeps = []\<rparr>)) = [1000, 2000]"
  by (simp add: dispatch_eval)

text \<open>
  C1 (the code at a rate-limit failure). Two keys, nothing in cooldown; the first attempt
  fails with a 429 and the second succeeds. The dispatcher calls \<open>findAvailableKey\<close>
  without calling \<open>rotateAPIKey\<close> first: key 0 keeps \<open>rateLimitHits = 0\<close>, gets no
  reset time and stays current, and the retry, after one \<open>retryDelay\<close>, goes to the
  same key (it ends with two requests, key 1 with none).
\<close>

theorem C1_rate_limit_leaves_key_unmarked:
  "isRateLimitError \<lparr>message = Some ''429 Too Many Requests'', status = Some 429\<rparr>
   \<and> callGeminiWithRetry
        (\<lambda>n. if n < 2
              then \<lparr>outcome = Inl \<lparr>message = Some ''429 Too Many Requests'', status = Some 429\<rparr>,
                    latency = 80\<rparr>
              else \<lparr>outcome = Inr ''no contact details'', latency = 300\<rparr>)
        1
        \<lparr>service = initial_service [''key-A'', ''key-B'']
                     \<lparr>maxRetries_given = None, retryDelay_given = None\<rparr>,
         clock = 0, sleeps = []\<rparr>
     = (Inr ''no contact details'',
        \<lparr>service =
           \<lparr>apiKeys = [''key-A'', ''key-B''],
            currentKeyIndex = 0,
            keyUsageStats =
              [\<lparr>requests = 2, errors = 1, lastUsed = Some 1080, rateLimitHits = 0\<rparr>,
               \<lparr>requests = 0, errors = 0, lastUsed = None, rateLimitHits = 0\<rparr>],
            config = \<lparr>maxRetries = 3, retryDelay = 1000\<rparr>,
            rateLimitResetTimes = Map.empty,
            client = ''key-A''\<rparr>,
         clock = 1380, sleeps = [1000]\<rparr>)"
  by (simp add: dispatch_eval)

text \<open>
  C2 (the code with a single key). One key, nothing in cooldown, and every attempt fails
  with a 429. The first failure does not end the call: \<open>findAvailableKey\<close> finds key 0
  available, the call sleeps \<open>retryDelay\<close> and retries, three times over, and the fourth
  failure is rethrown as the upstream error.
\<close>

theorem C2_single_key_keeps_retrying:
  "isRateLimitError \<lparr>message = Some ''429 Too Many Requests'', status = Some 429\<rparr>
   \<and> callGeminiWithRetry
        (\<lambda>n. \<lparr>outcome = Inl \<lparr>message = Some ''429 Too Many Requests'', status = Some 429\<rparr>,
              latency = 80\<rparr>)
        1
        \<lparr>service = initial_service [''key-A'']
                     \<lparr>maxRetries_given = None, retryDelay_given = None\<rparr>,
         clock = 0, sleeps = []\<rparr>
     = (Inl (UpstreamError \<lparr>message = Some ''429 Too Many Requests'', status = Some 429\<rparr>),
        \<lparr>service =
           \<lparr>apiKeys = [''key-A''],
            currentKeyIndex = 0,
            keyUsageStats =
              [\<lparr>requests = 4, errors = 4, lastUsed = Some 3240, rateLimitHits = 0\<rparr>],
            config = \<lparr>maxRetries = 3, retryDelay = 1000\<rparr>,
            rateLimitResetTimes = Map.empty,
            client = ''key-A''\<rparr>,
         clock = 3320, sleeps = [1000, 1000, 1000]\<rparr>)"
  by (simp add: dispatch_eval)

text \<open>
  \<open>pool_ok\<close> is an invariant of the class: the constructor establishes it and
  \<open>findAvailableKey\<close>, one pass of the dispatcher and a whole call of
  \<open>callGeminiWithRetry\<close> keep it.
\<close>

lemma pool_ok_new_service: "new_service keys cfg = Inr s \<Longrightarrow> pool_ok s"
  by (auto simp: new_service_def pool_ok_initial_service split: if_splits)

lemma pool_ok_findAvailableKey_from:
  "pool_ok s \<Longrightarrow> pool_ok (snd (findAvailableKey_from now s i))"
proof (induction now s i rule: findAvailableKey_from.induct)
  case (1 now s i)
  then show ?case
    by (subst findAvailableKey_from.simps)
       (auto simp: Let_def pool_ok_def initializeClient_def)
qed

lemma pool_ok_findAvailableKey: "pool_ok s \<Longrightarrow> pool_ok (snd (findAvailableKey now s))"
  unfolding findAvailableKey_def by (rule pool_ok_findAvailableKey_from)

lemma pool_ok_backoff_retry:
  "pool_ok (service w) \<Longrightarrow> backoff_retry a e w = Again w' \<Longrightarrow> pool_ok (service w')"
  by (auto simp: backoff_retry_def Let_def sleep_def pool_ok_rotateAPIKey split: if_splits)

lemma pool_ok_attempt_once:
  assumes "pool_ok (service w)" "attempt_once r a w = Again w'"
  shows "pool_ok (service w')"
proof -
  let ?w2 = "w\<lparr>service :=
                 on_current (\<lambda>k. k\<lparr>requests := requests k + 1, lastUsed := Some (clock w)\<rparr>)
                   (service w), clock := clock w + latency r\<rparr>"
  let ?w3 = "?w2\<lparr>service := on_current (\<lambda>k. k\<lparr>errors := errors k + 1\<rparr>) (service ?w2)\<rparr>"
  have ok3: "pool_ok (service ?w3)"
    using assms(1) by (simp add: pool_ok_on_current)
  from assms(2) obtain err where err: "outcome r = Inl err"
    by (cases "outcome r") (auto simp: attempt_once_def Let_def)
  show ?thesis
  proof (cases "isRateLimitError err")
    case False
    with assms(2) err have "backoff_retry a err ?w3 = Again w'"
      by (simp add: attempt_once_def on_failure_def Let_def)
    with ok3 show ?thesis by (rule pool_ok_backoff_retry)
  next
    case True
    let ?f = "findAvailableKey (clock ?w3) (service ?w3)"
    let ?w4 = "?w3\<lparr>service := snd ?f\<rparr>"
    have ok4: "pool_ok (service ?w4)"
      using pool_ok_findAvailableKey [OF ok3] by simp
    from assms(2) err True
    have "w' = sleep (retryDelay (config (service ?w4))) ?w4 \<or> backoff_retry a err ?w4 = Again w'"
      by (auto simp: attempt_once_def on_failure_def Let_def split_beta split: if_splits)
    then show ?thesis
    proof
      assume "w' = sleep (retryDelay (config (service ?w4))) ?w4"
      with ok4 show ?thesis by (simp add: sleep_def)
    next
      assume "backoff_retry a err ?w4 = Again w'"
      with ok4 show ?thesis by (rule pool_ok_backoff_retry)
    qed
  qed
qed

lemma pool_ok_backoff_retry_Done:
  "pool_ok (service w) \<Longrightarrow> backoff_retry a e w = Done res w' \<Longrightarrow> pool_ok (service w')"
  by (auto simp: backoff_retry_def Let_def split: if_splits)

lemma pool_ok_attempt_once_Done:
  assumes "pool_ok (service w)" "attempt_once r a w = Done res w'"
  shows "pool_ok (service w')"
proof -
  let ?w2 = "w\<lparr>service :=
                 on_current (\<lambda>k. k\<lparr>requests := requests k + 1, lastUsed := Some (clock w)\<rparr>)
                   (service w), clock := clock w + latency r\<rparr>"
  let ?w3 = "?w2\<lparr>service := on_current (\<lambda>k. k\<lparr>errors := errors k + 1\<rparr>) (service ?w2)\<rparr>"
  have ok2: "pool_ok (service ?w2)"
    using assms(1) by (simp add: pool_ok_on_current)
  have ok3: "pool_ok (service ?w3)"
    using assms(1) by (simp add: pool_ok_on_current)
  show ?thesis
  proof (cases "outcome r")
    case (Inr reply)
    with assms(2) have "w' = ?w2" by (simp add: attempt_once_def Let_def)
    with ok2 show ?thesis by simp
  next
    case (Inl err)
    show ?thesis
    proof (cases "isRateLimitError err")
      case False
      with assms(2) Inl have "backoff_retry a err ?w3 = Done res w'"
        by (simp add: attempt_once_def on_failure_def Let_def)
      with ok3 show ?thesis by (rule pool_ok_backoff_retry_Done)
    next
      case True
      let ?f = "findAvailableKey (clock ?w3) (service ?w3)"
      let ?w4 = "?w3\<lparr>service := snd ?f\<rparr>"
      have ok4: "pool_ok (service ?w4)"
        using pool_ok_findAvailableKey [OF ok3] by simp
      from assms(2) Inl True
      have "w' = ?w4 \<or> backoff_retry a err ?w4 = Done res w'"
        by (auto simp: attempt_once_def on_failure_def Let_def split_beta split: if_splits)
      then show ?thesis
      proof
        assume "w' = ?w4"
        with ok4 show ?thesis by simp
      next
        assume "backoff_retry a err ?w4 = Done res w'"
        with ok4 show ?thesis by (rule pool_ok_backoff_retry_Done)
      qed
    qed
  qed
qed

lemma pool_ok_callGeminiWithRetry:
  "pool_ok (service w) \<Longrightarrow> pool_ok (service (snd (callGeminiWithRetry upstream attempt w)))"
proof (induction upstream attempt w rule: callGeminiWithRetry.induct)
  case (1 upstream attempt w)
  show ?case
  proof (cases "attempt_once (upstream attempt) attempt w")
    case (Done res w')
    then have "callGeminiWithRetry upstream attempt w = (res, w')"
      by (rule callGeminiWithRetry_Done)
    with pool_ok_attempt_once_Done [OF "1.prems" Done] show ?thesis by simp
  next
    case (Again w')
    then have "callGeminiWithRetry upstream attempt w
                 = callGeminiWithRetry upstream (attempt + 1) w'"
      by (rule callGeminiWithRetry_Again)
    with "1.IH" [OF Again pool_ok_attempt_once [OF "1.prems" Again]] show ?thesis by simp
  qed
qed

section \<open>Properties of the normalizer\<close>

lemmas normalize_eval =
  parseDetectionResult_def parseDetectionResult_with_def try_parse_def structured_def
  fallback_def hasPIIIndicators_def toLowerCase_def lower_char_def char_of_def bit_Suc_0_iff js_or_def
  cleanedText_def trim_def is_js_space_def remove_fences.simps
  JSON_parse_def lex.simps is_json_space_def is_digit_def begin_value_def
  lex_number_def lex_fraction_def lex_exponent_def number_value_def digits_value_def Let_def

lemma parseDetectionResult_with_fallback:
  "parse (cleanedText txt) = None \<or> parse (cleanedText txt) = Some JNull
     \<or> parse (cleanedText txt) = Some Undefined \<Longrightarrow>
   parseDetectionResult_with parse txt = fallback txt"
  by (auto simp: parseDetectionResult_with_def try_parse_def)

lemma parseDetectionResult_with_structured:
  "parse (cleanedText txt) = Some v \<Longrightarrow> v \<noteq> JNull \<Longrightarrow> v \<noteq> Undefined \<Longrightarrow>
   parseDetectionResult_with parse txt = structured v"
  by (simp add: parseDetectionResult_with_def try_parse_def)

lemma js_or_simps [simp]:
  "truthy a \<Longrightarrow> js_or a b = a"
  "\<not> truthy a \<Longrightarrow> js_or a b = b"
  by (simp_all add: js_or_def)

lemma structured_no_members:
  "\<forall>ms. v \<noteq> JObject ms \<Longrightarrow>
   structured v =
     \<lparr>hasPII = JBool False, confidence = JNumber 0, detectedItems = JArray [],
      reasoning = JString [], riskLevel = JString ''low'',
      imageContainsText = Undefined, rawResponse = None\<rparr>"
  by (cases v) (simp_all add: structured_def)

text \<open>
  C5 (as the code has it). \<open>parseDetectionResult\<close> returns a \<open>DetectionResult\<close> on every
  text, whatever \<open>JSON.parse\<close> does with it: the fallback, or the result built from the
  parsed value. It is the fallback exactly when the \<open>try\<close> block throws, that is when
  \<open>JSON.parse\<close> throws on the cleaned text or returns \<open>null\<close>: then \<open>hasPII\<close> is true
  exactly when the lowercased raw text contains \<open>detected\<close>, \<open>found\<close>, \<open>phone\<close> or
  \<open>email\<close>, \<open>confidence\<close> is 50, \<open>riskLevel\<close> is \<open>medium\<close>, \<open>detectedItems\<close> is empty and
  \<open>reasoning\<close> is the fixed sentence that parsing failed. A text that parses to any
  other value is not sent to the fallback; a number, string, boolean or array, which has
  none of the fields, gives the record of all defaults. (The spec's \<open>flagged\<close>, \<open>items\<close>
  and \<open>severity\<close> are the code's \<open>hasPII\<close>, \<open>detectedItems\<close> and \<open>riskLevel\<close>.)
\<close>

theorem C5_normalize_total_with_fallback:
  "(parseDetectionResult_with parse txt = fallback txt
      \<or> (\<exists>v. parse (cleanedText txt) = Some v
             \<and> parseDetectionResult_with parse txt = structured v))
   \<and> (parse (cleanedText txt) = None \<or> parse (cleanedText txt) = Some JNull \<longrightarrow>
        parseDetectionResult_with parse txt =
          \<lparr>hasPII = JBool (includes_str (toLowerCase txt) ''detected''
                           \<or> includes_str (toLowerCase txt) ''found''
                           \<or> includes_str (toLowerCase txt) ''phone''
                           \<or> includes_str (toLowerCase txt) ''email''),
           confidence = JNumber 50,
           detectedItems = JArray [],
           reasoning = JString ''Failed to parse response, flagging as potential PII'',
           riskLevel = JString ''medium'',
           imageContainsText = Undefined,
           rawResponse = Some txt\<rparr>)
   \<and> (\<forall>v. parse (cleanedText txt) = Some v \<and> v \<noteq> JNull \<and> v \<noteq> Undefined \<longrightarrow>
          parseDetectionResult_with parse txt = structured v
          \<and> ((\<forall>ms. v \<noteq> JObject ms) \<longrightarrow>
                parseDetectionResult_with parse txt =
                  \<lparr>hasPII = JBool False, confidence = JNumber 0, detectedItems = JArray [],
                   reasoning = JString [], riskLevel = JString ''low'',
                   imageContainsText = Undefined, rawResponse = None\<rparr>))"
proof (intro conjI impI allI)
  show "parseDetectionResult_with parse txt = fallback txt
      \<or> (\<exists>v. parse (cleanedText txt) = Some v
             \<and> parseDetectionResult_with parse txt = structured v)"
    by (auto simp: parseDetectionResult_with_def try_parse_def split: option.splits)
next
  assume "parse (cleanedText txt) = None \<or> parse (cleanedText txt) = Some JNull"
  then have "parseDetectionResult_with parse txt = fallback txt"
    by (intro parseDetectionResult_with_fallback) auto
  then show "parseDetectionResult_with parse txt =
          \<lparr>hasPII = JBool (includes_str (toLowerCase txt) ''detected''
                           \<or> includes_str (toLowerCase txt) ''found''
                           \<or> includes_str (toLowerCase txt) ''phone''
                           \<or> includes_str (toLowerCase txt) ''email''),
           confidence = JNumber 50,
           detectedItems = JArray [],
           reasoning = JString ''Failed to parse response, flagging as potential PII'',
           riskLevel = JString ''medium'',
           imageContainsText = Undefined,
           rawResponse = Some txt\<rparr>"
    by (simp add: fallback_def hasPIIIndicators_def)
next
  fix v
  assume v: "parse (cleanedText txt) = Some v \<and> v \<noteq> JNull \<and> v \<noteq> Undefined"
  then show s: "parseDetectionResult_with parse txt = structured v"
    by (simp add: parseDetectionResult_with_structured)
  assume "\<forall>ms. v \<noteq> JObject ms"
  then show "parseDetectionResult_with parse txt =
                  \<lparr>hasPII = JBool False, confidence = JNumber 0, detectedItems = JArray [],
                   reasoning = JString [], riskLevel = JString ''low'',
                   imageContainsText = Undefined, rawResponse = None\<rparr>"
    unfolding s by (rule structured_no_members)
qed

theorem C5_witness:
  "JSON_parse (cleanedText ''PII Detected: PHONE number in message'') = None
   \<and> parseDetectionResult ''PII Detected: PHONE number in message'' =
       \<lparr>hasPII = JBool True,
        confidence = JNumber 50,
        detectedItems = JArray [],
        reasoning = JString ''Failed to parse response, flagging as potential PII'',
        riskLevel = JString ''medium'',
        imageContainsText = Undefined,
        rawResponse = Some ''PII Detected: PHONE number in message''\<rparr>
   \<and> JSON_parse (cleanedText ''not a structured response'') = None
   \<and> hasPII (parseDetectionResult ''not a structured response'') = JBool False
   \<and> JSON_parse (cleanedText ''[1, 2]'') = Some (JArray [JNumber 1, JNumber 2])
   \<and> parseDetectionResult ''[1, 2]'' =
       \<lparr>hasPII = JBool False, confidence = JNumber 0, detectedItems = JArray [],
        reasoning = JString [], riskLevel = JString ''low'',
        imageContainsText = Undefined, rawResponse = None\<rparr>"
proof -
  have a: "JSON_parse (cleanedText ''PII Detected: PHONE number in message'') = None"
    by (simp add: normalize_eval)
  have b: "JSON_parse (cleanedText ''not a structured response'') = None"
    by (simp add: normalize_eval)
  have c: "JSON_parse (cleanedText ''[1, 2]'') = Some (JArray [JNumber 1, JNumber 2])"
    by (simp add: normalize_eval)
  have low: "toLowerCase ''PII Detected: PHONE number in message''
               = ''pii detected: phone number in message''"
    "toLowerCase ''not a structured response'' = ''not a structured response''"
    by (simp_all add: toLowerCase_def lower_char_def char_of_def bit_Suc_0_iff Let_def)
  have r1: "parseDetectionResult_with JSON_parse ''PII Detected: PHONE number in message'' =
          \<lparr>hasPII = JBool (includes_str (toLowerCase ''PII Detected: PHONE number in message'') ''detected''
                           \<or> includes_str (toLowerCase ''PII Detected: PHONE number in message'') ''found''
                           \<or> includes_str (toLowerCase ''PII Detected: PHONE number in message'') ''phone''
                           \<or> includes_str (toLowerCase ''PII Detected: PHONE number in message'') ''email''),
           confidence = JNumber 50,
           detectedItems = JArray [],
           reasoning = JString ''Failed to parse response, flagging as potential PII'',
           riskLevel = JString ''medium'',
           imageContainsText = Undefined,
           rawResponse = Some ''PII Detected: PHONE number in message''\<rparr>"
    using C5_normalize_total_with_fallback
            [of JSON_parse "''PII Detected: PHONE number in message''"] a
    by blast
  have r2: "parseDetectionResult_with JSON_parse ''not a structured response'' =
          \<lparr>hasPII = JBool (includes_str (toLowerCase ''not a structured response'') ''detected''
                           \<or> includes_str (toLowerCase ''not a structured response'') ''found''
                           \<or> includes_str (toLowerCase ''not a structured response'') ''phone''
                           \<or> includes_str (toLowerCase ''not a structured response'') ''email''),
           confidence = JNumber 50,
           detectedItems = JArray [],
           reasoning = JString ''Failed to parse response, flagging as potential PII'',
           riskLevel = JString ''medium'',
           imageContainsText = Undefined,
           rawResponse = Some ''not a structured response''\<rparr>"
    using C5_normalize_total_with_fallback [of JSON_parse "''not a structured response''"] b
    by blast
  have r3: "parseDetectionResult_with JSON_parse ''[1, 2]'' =
       \<lparr>hasPII = JBool False, confidence = JNumber 0, detectedItems = JArray [],
        reasoning = JString [], riskLevel = JString ''low'',
        imageContainsText = Undefined, rawResponse = None\<rparr>"
    using C5_normalize_total_with_fallback [of JSON_parse "''[1, 2]''"] c
    by auto
  show ?thesis
    unfolding parseDetectionResult_def r1 r2 r3 low using a b c by simp
qed

theorem C5_counterexample:
  \<open>JSON_parse (cleanedText ''"phone number detected"'') = Some (JString ''phone number detected'')
   \<and> parseDetectionResult ''"phone number detected"'' =
       \<lparr>hasPII = JBool False, confidence = JNumber 0, detectedItems = JArray [],
        reasoning = JString [], riskLevel = JString ''low'',
        imageContainsText = Undefined, rawResponse = None\<rparr>
   \<and> parseDetectionResult ''"phone number detected"'' \<noteq> fallback ''"phone number detected"''\<close>
  by (simp add: normalize_eval)

lemma property_object:
  "property (JObject ms) name =
     (case map_of (rev ms) name of None \<Rightarrow> Undefined | Some v \<Rightarrow> v)"
  by simp

text \<open>
  C6. When the cleaned text parses to an object, the result is built field by field. A
  field the object lacks takes its default: \<open>hasPII = false\<close>, \<open>confidence = 0\<close>,
  \<open>detectedItems = []\<close>, \<open>reasoning = ""\<close>, \<open>riskLevel = "low"\<close>. A field the object has
  with a value of its declared type (a boolean, a number, an array, a string, a
  non-empty string for \<open>riskLevel\<close>), and more generally with any truthy value, is
  returned as it is. No text that parses to an object is sent to the fallback. (The
  spec's \<open>flagged\<close>, \<open>items\<close> and \<open>severity\<close> are the code's \<open>hasPII\<close>, \<open>detectedItems\<close>
  and \<open>riskLevel\<close>.)
\<close>

theorem C6_partial_record_defaults:
  assumes "parse (cleanedText txt) = Some (JObject ms)"
  shows "rawResponse (parseDetectionResult_with parse txt) = None
    \<and> (map_of (rev ms) ''hasPII'' = None \<longrightarrow>
          hasPII (parseDetectionResult_with parse txt) = JBool False)
    \<and> (\<forall>b. map_of (rev ms) ''hasPII'' = Some (JBool b) \<longrightarrow>
          hasPII (parseDetectionResult_with parse txt) = JBool b)
    \<and> (map_of (rev ms) ''confidence'' = None \<longrightarrow>
          confidence (parseDetectionResult_with parse txt) = JNumber 0)
    \<and> (\<forall>n. map_of (rev ms) ''confidence'' = Some (JNumber n) \<longrightarrow>
          confidence (parseDetectionResult_with parse txt) = JNumber n)
    \<and> (map_of (rev ms) ''detectedItems'' = None \<longrightarrow>
          detectedItems (parseDetectionResult_with parse txt) = JArray [])
    \<and> (\<forall>xs. map_of (rev ms) ''detectedItems'' = Some (JArray xs) \<longrightarrow>
          detectedItems (parseDetectionResult_with parse txt) = JArray xs)
    \<and> (map_of (rev ms) ''reasoning'' = None \<longrightarrow>
          reasoning (parseDetectionResult_with parse txt) = JString [])
    \<and> (\<forall>s. map_of (rev ms) ''reasoning'' = Some (JString s) \<longrightarrow>
          reasoning (parseDetectionResult_with parse txt) = JString s)
    \<and> (map_of (rev ms) ''riskLevel'' = None \<longrightarrow>
          riskLevel (parseDetectionResult_with parse txt) = JString ''low'')
    \<and> (\<forall>s. s \<noteq> [] \<and> map_of (rev ms) ''riskLevel'' = Some (JString s) \<longrightarrow>
          riskLevel (parseDetectionResult_with parse txt) = JString s)
    \<and> (\<forall>v. truthy v \<longrightarrow>
          (map_of (rev ms) ''hasPII'' = Some v \<longrightarrow>
             hasPII (parseDetectionResult_with parse txt) = v)
          \<and> (map_of (rev ms) ''confidence'' = Some v \<longrightarrow>
             confidence (parseDetectionResult_with parse txt) = v)
          \<and> (map_of (rev ms) ''detectedItems'' = Some v \<longrightarrow>
             detectedItems (parseDetectionResult_with parse txt) = v)
          \<and> (map_of (rev ms) ''reasoning'' = Some v \<longrightarrow>
             reasoning (parseDetectionResult_with parse txt) = v)
          \<and> (map_of (rev ms) ''riskLevel'' = Some v \<longrightarrow>
             riskLevel (parseDetectionResult_with parse txt) = v))"
proof -
  have r: "parseDetectionResult_with parse txt = structured (JObject ms)"
    using assms by (simp add: parseDetectionResult_with_structured)
  show ?thesis
    unfolding r structured_def property_object
    by (auto simp: js_or_def)
qed

theorem C6_witness:
  \<open>JSON_parse (cleanedText ''{"hasPII":true}'') = Some (JObject [(''hasPII'', JBool True)])
   \<and> parseDetectionResult ''{"hasPII":true}'' =
       \<lparr>hasPII = JBool True, confidence = JNumber 0, detectedItems = JArray [],
        reasoning = JString [], riskLevel = JString ''low'',
        imageContainsText = Undefined, rawResponse = None\<rparr>\<close>
proof -
  let ?t = \<open>''{"hasPII":true}''\<close>
  have p: "JSON_parse (cleanedText ?t) = Some (JObject [(''hasPII'', JBool True)])"
    by (simp add: normalize_eval)
  have i: "imageContainsText (parseDetectionResult_with JSON_parse ?t) = Undefined"
    using p by (simp add: parseDetectionResult_with_structured structured_def)
  note f = C6_partial_record_defaults [of JSON_parse "?t" "[(''hasPII'', JBool True)]", OF p]
  from f have f1: "rawResponse (parseDetectionResult_with JSON_parse ?t) = None"
    by (rule conjunct1)
  from f have f2: "hasPII (parseDetectionResult_with JSON_parse ?t) = JBool True"
    by simp
  from f have f3: "confidence (parseDetectionResult_with JSON_parse ?t) = JNumber 0"
    by simp
  from f have f4: "detectedItems (parseDetectionResult_with JSON_parse ?t) = JArray []"
    by simp
  from f have f5: "reasoning (parseDetectionResult_with JSON_parse ?t) = JString []"
    by simp
  from f have f6: "riskLevel (parseDetectionResult_with JSON_parse ?t) = JString ''low''"
    by simp
  have "parseDetectionResult_with JSON_parse ?t =
       \<lparr>hasPII = JBool True, confidence = JNumber 0, detectedItems = JArray [],
        reasoning = JString [], riskLevel = JString ''low'',
        imageContainsText = Undefined, rawResponse = None\<rparr>"
    using f1 f2 f3 f4 f5 f6 i
    by (cases "parseDetectionResult_with JSON_parse ?t") simp
  with p show ?thesis
    by (simp add: parseDetectionResult_def)
qed

text \<open>
  C7 (as the code has it). On the structured path \<open>confidence\<close> and \<open>riskLevel\<close> are
  \<open>parsed.confidence || 0\<close> and \<open>parsed.riskLevel || 'low'\<close>: a missing or falsy value
  (\<open>null\<close>, \<open>false\<close>, \<open>0\<close>, the empty string) gives the default, and every other value is
  returned unchanged, whether or not it is a number between 0 and 100 or one of
  \<open>critical\<close>, \<open>high\<close>, \<open>medium\<close>, \<open>low\<close>. The function has no range or membership test.
\<close>

theorem C7_only_falsy_values_defaulted:
  assumes "parse (cleanedText txt) = Some (JObject ms)"
  shows "confidence (parseDetectionResult_with parse txt) =
           (case map_of (rev ms) ''confidence'' of
              None \<Rightarrow> JNumber 0
            | Some v \<Rightarrow> if truthy v then v else JNumber 0)
       \<and> riskLevel (parseDetectionResult_with parse txt) =
           (case map_of (rev ms) ''riskLevel'' of
              None \<Rightarrow> JString ''low''
            | Some v \<Rightarrow> if truthy v then v else JString ''low'')"
proof -
  have r: "parseDetectionResult_with parse txt = structured (JObject ms)"
    using assms by (simp add: parseDetectionResult_with_structured)
  show ?thesis
    unfolding r structured_def property_object
    by (auto simp: js_or_def split: option.splits)
qed

theorem C7_witness:
  \<open>JSON_parse (cleanedText ''{"hasPII":true,"confidence":-5,"riskLevel":null}'')
     = Some (JObject [(''hasPII'', JBool True), (''confidence'', JNumber (- 5)),
                      (''riskLevel'', JNull)])
   \<and> confidence (parseDetectionResult ''{"hasPII":true,"confidence":-5,"riskLevel":null}'')
       = JNumber (- 5)
   \<and> riskLevel (parseDetectionResult ''{"hasPII":true,"confidence":-5,"riskLevel":null}'')
       = JString ''low''\<close>
proof -
  let ?t = \<open>''{"hasPII":true,"confidence":-5,"riskLevel":null}''\<close>
  have p: "JSON_parse (cleanedText ?t)
     = Some (JObject [(''hasPII'', JBool True), (''confidence'', JNumber (- 5)),
                      (''riskLevel'', JNull)])"
    by (simp add: normalize_eval)
  from C7_only_falsy_values_defaulted
         [of JSON_parse "?t" "[(''hasPII'', JBool True), (''confidence'', JNumber (- 5)),
                      (''riskLevel'', JNull)]", OF p] p
  show ?thesis
    by (simp add: parseDetectionResult_def)
qed

theorem C7_counterexample:
  \<open>JSON_parse (cleanedText ''{"hasPII":true,"confidence":150,"riskLevel":"extreme"}'')
     = Some (JObject [(''hasPII'', JBool True), (''confidence'', JNumber 150),
                      (''riskLevel'', JString ''extreme'')])
   \<and> parseDetectionResult ''{"hasPII":true,"confidence":150,"riskLevel":"extreme"}'' =
       \<lparr>hasPII = JBool True, confidence = JNumber 150, detectedItems = JArray [],
        reasoning = JString [], riskLevel = JString ''extreme'',
        imageContainsText = Undefined, rawResponse = None\<rparr>\<close>
  by (simp add: normalize_eval)

section \<open>Properties of the usage statistics\<close>

lemma includes_str_sublist: "includes_str ys xs \<longleftrightarrow> sublist xs ys"
  by (induction ys) (simp_all add: sublist_Cons_right)

lemma preview_reveals_key:
  "includes_str (take 8 key @ ''...'') key \<longleftrightarrow> prefix (drop 8 key) ''...''"
proof
  assume "prefix (drop 8 key) ''...''"
  then obtain ss where "''...'' = drop 8 key @ ss" by (auto simp: prefix_def)
  then have "take 8 key @ ''...'' = [] @ key @ ss"
    by (metis append.assoc append_Nil append_take_drop_id)
  then show "includes_str (take 8 key @ ''...'') key"
    unfolding includes_str_sublist sublist_def by blast
next
  assume "includes_str (take 8 key @ ''...'') key"
  then obtain ps ss where split: "take 8 key @ ''...'' = ps @ key @ ss"
    unfolding includes_str_sublist sublist_def by blast
  show "prefix (drop 8 key) ''...''"
  proof (cases "length key \<le> 8")
    case True
    then show ?thesis by simp
  next
    case False
    then have long: "8 < length key" by simp
    from split have "length (take 8 key @ ''...'') = length (ps @ key @ ss)" by simp
    with long have len: "length ps + length key + length ss = 11" by simp
    have dots: "key ! j = CHR ''.''" if "8 \<le> j" "j < length key" for j
    proof -
      have "key ! j = (ps @ key @ ss) ! (length ps + j)"
        using that by (simp add: nth_append)
      also have "\<dots> = (take 8 key @ ''...'') ! (length ps + j)"
        by (simp only: split)
      also have "\<dots> = ''...'' ! (length ps + j - 8)"
        using that long by (simp add: nth_append)
      also have "\<dots> = CHR ''.''"
      proof -
        from that len have "length ps + j - 8 < 3" by simp
        then have "length ps + j - 8 \<in> {0, 1, 2}" by auto
        then show ?thesis by auto
      qed
      finally show ?thesis .
    qed
    have "drop 8 key = replicate (length key - 8) (CHR ''.'')"
      by (rule nth_equalityI) (simp_all add: dots)
    moreover from len have "length key - 8 \<le> 3" by simp
    then have "length key - 8 \<in> {0, 1, 2, 3}" by auto
    ultimately show ?thesis
      by (auto simp: numeral_2_eq_2 numeral_3_eq_3)
  qed
qed

lemma represents_nth:
  assumes "represents h refs s" "i < length (keyUsageStats s)"
  shows "i < length refs" "refs ! i < length h" "h ! (refs ! i) = StatsCell (keyUsageStats s ! i)"
  using assms by (auto simp: represents_def list_all2_conv_all_nth)

lemma represents_extend:
  assumes "represents h refs s" "length h \<le> length h'" "take (length h) h' = h"
  shows "represents h' refs s"
proof -
  have "h' ! r = h ! r" if "r < length h" for r
    using that assms(3) by (metis nth_take)
  with assms(1,2) show ?thesis
    by (auto simp: represents_def list_all2_conv_all_nth)
qed

lemma represents_update_fresh:
  assumes "represents h refs s" "length h \<le> a"
  shows "represents (h[a := c]) refs s"
  using assms by (auto simp: represents_def list_all2_conv_all_nth)

lemma allocate_entries_result:
  assumes "represents h0 refs s" "length h0 \<le> length h" "take (length h0) h = h0"
    and "index + length keys \<le> length (keyUsageStats s)"
  shows "\<exists>h'. allocate_entries s refs h index keys
                 = Some ([length h..<length h + length keys], h')
           \<and> length h' = length h + length keys
           \<and> take (length h) h' = h
           \<and> drop (length h) h' =
               map (\<lambda>(i, key). ResponseCell (usage_entry s i key (keyUsageStats s ! i)))
                 (enumerate index keys)"
  using assms(2-4)
proof (induction keys arbitrary: h index)
  case Nil
  then show ?case by simp
next
  case (Cons key keys)
  let ?e = "ResponseCell (usage_entry s index key (keyUsageStats s ! index))"
  let ?h1 = "h @ [?e]"
  from Cons.prems have i: "index < length (keyUsageStats s)" by simp
  note r = represents_nth [OF assms(1) i]
  have "h ! (refs ! index) = h0 ! (refs ! index)"
    using r(2) Cons.prems(2) by (metis nth_take)
  with r have read: "index < length refs" "refs ! index < length h"
      "h ! (refs ! index) = StatsCell (keyUsageStats s ! index)"
    using Cons.prems(1) by simp_all
  have "length h0 \<le> length ?h1" "take (length h0) ?h1 = h0"
    "index + 1 + length keys \<le> length (keyUsageStats s)"
    using Cons.prems by simp_all
  from Cons.IH [OF this] obtain h' where
    call: "allocate_entries s refs ?h1 (index + 1) keys
             = Some ([length ?h1..<length ?h1 + length keys], h')"
    and len: "length h' = length ?h1 + length keys"
    and keep: "take (length ?h1) h' = ?h1"
    and new: "drop (length ?h1) h' =
               map (\<lambda>(i, key). ResponseCell (usage_entry s i key (keyUsageStats s ! i)))
                 (enumerate (index + 1) keys)"
    by blast
  have upt: "[length h..<length h + length (key # keys)]
               = length h # [length ?h1..<length ?h1 + length keys]"
    by (subst upt_rec) simp
  have keep': "take (length h) h' = h"
  proof -
    have "take (length h) h' = take (length h) (take (length ?h1) h')" by simp
    also have "\<dots> = h" unfolding keep by simp
    finally show ?thesis .
  qed
  have "drop (length h) h' = drop (length h) (take (length ?h1) h') @ drop (length ?h1) h'"
    by (metis append_take_drop_id drop_append length_take min.absorb2 diff_is_0_eq'
          drop_0 le_add1 len length_append take_all_iff le_refl drop_take)
  also have "\<dots> = ?e # drop (length ?h1) h'" unfolding keep by simp
  finally have new': "drop (length h) h' =
      map (\<lambda>(i, key). ResponseCell (usage_entry s i key (keyUsageStats s ! i)))
        (enumerate index (key # keys))"
    using new by simp
  have res: "allocate_entries s refs h index (key # keys)
               = Some (length h # [length ?h1..<length ?h1 + length keys], h')"
    using read call by simp
  show ?case
    unfolding upt using res len keep' new' by (intro exI [of _ h']) simp
qed

lemma getUsageStats_nth:
  "i < length (apiKeys s) \<Longrightarrow>
     getUsageStats s ! i = usage_entry s i (apiKeys s ! i) (keyUsageStats s ! i)"
  by (simp add: getUsageStats_def nth_enumerate_eq)

lemma length_trim_le: "length (trim s) \<le> length s"
proof -
  have "length (trim s) = length (dropWhile is_js_space (rev (dropWhile is_js_space s)))"
    by (simp add: trim_def)
  also have "\<dots> \<le> length (rev (dropWhile is_js_space s))"
    by (rule length_dropWhile_le)
  also have "\<dots> = length (dropWhile is_js_space s)"
    by simp
  also have "\<dots> \<le> length s"
    by (rule length_dropWhile_le)
  finally show ?thesis .
qed

lemma loadAPIKeys_long: "key \<in> set (loadAPIKeys env) \<Longrightarrow> 20 \<le> length key"
proof (induction env)
  case Nil
  then show ?case by simp
next
  case (Cons k env)
  then show ?case
    using length_trim_le [of k] by (auto split: if_splits)
qed

lemma preview_hides_long_key:
  assumes "11 < length key"
  shows "\<not> includes_str (take 8 key @ ''...'') key"
proof
  assume "includes_str (take 8 key @ ''...'') key"
  then have "prefix (drop 8 key) ''...''"
    by (simp only: preview_reveals_key)
  then have "length (drop 8 key) \<le> length ''...''"
    by (rule prefix_length_le)
  with assms show False by simp
qed

text \<open>
  C9. \<open>getUsageStats\<close> reads and allocates, and writes to nothing that exists: the store
  it leaves agrees with the one it found on every address that was in use, so the
  statistics of the pool (and the current index, which it only compares) are as before;
  the entries it returns are new objects, one per key, at the addresses after the old
  store, so that overwriting any of them leaves the pool as it was. Each entry's
  \<open>keyPreview\<close> is the first eight characters of the key followed by three dots, and for
  the keys of a pool built from \<open>loadAPIKeys\<close>, which are at least 20 characters long,
  it never contains the key.
\<close>

theorem C9_stats_read_only_and_preview:
  assumes "pool_ok s" and "represents h refs s" and "apiKeys s = loadAPIKeys env"
  shows "\<exists>h'. getUsageStats_store s refs h
                 = Some ([length h..<length h + length (apiKeys s)], h')
           \<and> take (length h) h' = h
           \<and> drop (length h) h' = map ResponseCell (getUsageStats s)
           \<and> represents h' refs s
           \<and> (\<forall>a c. length h \<le> a \<longrightarrow> represents (h'[a := c]) refs s)
           \<and> (\<forall>i<length (apiKeys s).
                 keyPreview (getUsageStats s ! i) = take 8 (apiKeys s ! i) @ ''...''
                 \<and> length (keyPreview (getUsageStats s ! i)) = 11
                 \<and> \<not> includes_str (keyPreview (getUsageStats s ! i)) (apiKeys s ! i))"
proof -
  from assms(1) have n: "0 + length (apiKeys s) \<le> length (keyUsageStats s)"
    by (simp add: pool_ok_def)
  from allocate_entries_result [of h refs s h 0 "apiKeys s"] assms(2) n
  obtain h' where
    call: "allocate_entries s refs h 0 (apiKeys s)
             = Some ([length h..<length h + length (apiKeys s)], h')"
    and len: "length h' = length h + length (apiKeys s)"
    and keep: "take (length h) h' = h"
    and new: "drop (length h) h' =
               map (\<lambda>(i, key). ResponseCell (usage_entry s i key (keyUsageStats s ! i)))
                 (enumerate 0 (apiKeys s))"
    by auto
  have rep: "represents h' refs s"
    using assms(2) keep len by (intro represents_extend [of h refs s h']) simp_all
  have fresh: "represents (h'[a := c]) refs s" if "length h \<le> a" for a c
  proof -
    have "represents (h[a := c]) refs s"
      using assms(2) that by (rule represents_update_fresh)
    moreover have "take (length h) (h'[a := c]) = h"
      using that keep by simp
    ultimately show ?thesis
      using assms(2) len by (intro represents_extend [of h refs s "h'[a := c]"]) simp_all
  qed
  have entries: "drop (length h) h' = map ResponseCell (getUsageStats s)"
    unfolding new getUsageStats_def by (simp add: case_prod_unfold comp_def)
  have long: "20 \<le> length (apiKeys s ! i)" if "i < length (apiKeys s)" for i
  proof -
    from that have "apiKeys s ! i \<in> set (loadAPIKeys env)"
      unfolding assms(3) [symmetric] by simp
    then show ?thesis by (rule loadAPIKeys_long)
  qed
  have preview: "keyPreview (getUsageStats s ! i) = take 8 (apiKeys s ! i) @ ''...''"
    if "i < length (apiKeys s)" for i
    using that by (simp add: getUsageStats_nth usage_entry_def)
  have size: "length (keyPreview (getUsageStats s ! i)) = 11"
    if "i < length (apiKeys s)" for i
    using long [OF that] by (simp add: preview [OF that])
  have hidden: "\<not> includes_str (keyPreview (getUsageStats s ! i)) (apiKeys s ! i)"
    if "i < length (apiKeys s)" for i
    unfolding preview [OF that] using long [OF that]
    by (intro preview_hides_long_key) simp
  show ?thesis
    using call keep entries rep fresh preview size hidden
    by (intro exI [of _ h']) (simp add: getUsageStats_store_def del: includes_str.simps)
qed

theorem C9_witness:
  "loadAPIKeys [''AIzaSyC1-example-key-0001'', ''your-api-key-goes-here-0000'', ''short'',
                ''AIzaSyD2-example-key-0002'']
     = [''AIzaSyC1-example-key-0001'', ''AIzaSyD2-example-key-0002'']
   \<and> getUsageStats
     (initial_service [''AIzaSyC1-example-key-0001'', ''AIzaSyD2-example-key-0002'']
        \<lparr>maxRetries_given = None, retryDelay_given = None\<rparr>)
   = [\<lparr>requests = 0, errors = 0, lastUsed = None, rateLimitHits = 0,
       keyIndex = 0, keyPreview = ''AIzaSyC1...'', isCurrent = True\<rparr>,
      \<lparr>requests = 0, errors = 0, lastUsed = None, rateLimitHits = 0,
       keyIndex = 1, keyPreview = ''AIzaSyD2...'', isCurrent = False\<rparr>]
   \<and> \<not> includes_str ''AIzaSyC1...'' ''AIzaSyC1-example-key-0001''
   \<and> (\<exists>h'. getUsageStats_store
          (initial_service [''AIzaSyC1-example-key-0001'', ''AIzaSyD2-example-key-0002'']
             \<lparr>maxRetries_given = None, retryDelay_given = None\<rparr>)
          [1, 0]
          [StatsCell \<lparr>requests = 0, errors = 0, lastUsed = None, rateLimitHits = 0\<rparr>,
           StatsCell \<lparr>requests = 0, errors = 0, lastUsed = None, rateLimitHits = 0\<rparr>]
        = Some ([2, 3], h')
      \<and> take 2 h' =
          [StatsCell \<lparr>requests = 0, errors = 0, lastUsed = None, rateLimitHits = 0\<rparr>,
           StatsCell \<lparr>requests = 0, errors = 0, lastUsed = None, rateLimitHits = 0\<rparr>])"
proof -
  let ?env = "[''AIzaSyC1-example-key-0001'', ''your-api-key-goes-here-0000'', ''short'',
               ''AIzaSyD2-example-key-0002'']"
  let ?s = "initial_service [''AIzaSyC1-example-key-0001'', ''AIzaSyD2-example-key-0002'']
              \<lparr>maxRetries_given = None, retryDelay_given = None\<rparr>"
  let ?z = "\<lparr>requests = 0, errors = 0, lastUsed = None, rateLimitHits = 0\<rparr> :: KeyUsageStats"
  let ?h = "[StatsCell ?z, StatsCell ?z]"
  have loaded: "loadAPIKeys ?env
                  = [''AIzaSyC1-example-key-0001'', ''AIzaSyD2-example-key-0002'']"
    by (simp add: trim_def is_js_space_def)
  have ok: "pool_ok ?s" by (simp add: pool_ok_initial_service)
  have rep: "represents ?h [1, 0] ?s"
    by (simp add: represents_def initial_service_def initializeClient_def)
  have keys: "apiKeys ?s = [''AIzaSyC1-example-key-0001'', ''AIzaSyD2-example-key-0002'']"
    by (simp add: initial_service_def initializeClient_def)
  have from_loader: "apiKeys ?s = loadAPIKeys ?env"
    unfolding keys loaded ..
  have stats: "getUsageStats ?s
   = [\<lparr>requests = 0, errors = 0, lastUsed = None, rateLimitHits = 0,
       keyIndex = 0, keyPreview = ''AIzaSyC1...'', isCurrent = True\<rparr>,
      \<lparr>requests = 0, errors = 0, lastUsed = None, rateLimitHits = 0,
       keyIndex = 1, keyPreview = ''AIzaSyD2...'', isCurrent = False\<rparr>]"
    by (simp add: getUsageStats_def usage_entry_def initial_service_def initializeClient_def)
  from C9_stats_read_only_and_preview [OF ok rep from_loader] obtain h' where
    a: "getUsageStats_store ?s [1, 0] ?h = Some ([length ?h..<length ?h + length (apiKeys ?s)], h')"
    and b: "take (length ?h) h' = ?h"
    and c: "\<forall>i<length (apiKeys ?s).
                 keyPreview (getUsageStats ?s ! i) = take 8 (apiKeys ?s ! i) @ ''...''
                 \<and> length (keyPreview (getUsageStats ?s ! i)) = 11
                 \<and> \<not> includes_str (keyPreview (getUsageStats ?s ! i)) (apiKeys ?s ! i)"
    by blast
  from c have "\<not> includes_str (keyPreview (getUsageStats ?s ! 0)) (apiKeys ?s ! 0)"
    by (simp add: keys)
  then have hidden: "\<not> includes_str ''AIzaSyC1...'' ''AIzaSyC1-example-key-0001''"
    unfolding stats keys by simp
  have l: "length ?h = 2" by simp
  have u: "[length ?h..<length ?h + length (apiKeys ?s)] = [2, 3]"
    unfolding keys by (simp add: upt_rec)
  from a have a': "getUsageStats_store ?s [1, 0] ?h = Some ([2, 3], h')"
    unfolding u .
  from b have b': "take 2 h' = ?h"
    unfolding l .
  from a' b' have "\<exists>h'. getUsageStats_store ?s [1, 0] ?h = Some ([2, 3], h') \<and> take 2 h' = ?h"
    by blast
  with loaded stats hidden show ?thesis by blast
qed

end
